theory Spec2Isabelle
  imports Complex_Main "HOL-Library.Word" "HOL-Library.Signed_Division"
begin

section \<open>Values of the JavaScript runtime\<close>

text \<open>
  The ten element kinds of \<^verbatim>\<open>common_types.ts\<close> (\<^verbatim>\<open>DataType\<close>).
\<close>

datatype DataType = U8 | U16 | U32 | U64 | I8 | I16 | I32 | I64 | F32 | F64

text \<open>
  Every \<^verbatim>\<open>throw\<close> of the source and every exception of the runtime that the modelled
  code can meet. \<open>IncompleteShape\<close>, \<open>IncompleteCols\<close>, \<open>MissingDType\<close> and \<open>NoOverload\<close>
  are the four errors of the Matrix constructor, \<open>UnequalRows\<close> and \<open>UnequalCols\<close> the two
  of \<^verbatim>\<open>dot\<close>, \<open>IdfNotInitialized\<close> the one of \<^verbatim>\<open>transform\<close>. \<open>TypeError\<close> and
  \<open>RangeError\<close> are raised by the runtime itself (mixing bigint and number, storing a
  non-bigint in a 64-bit integer array, reading a property of \<^verbatim>\<open>undefined\<close>, an offset
  out of bounds in \<^verbatim>\<open>TypedArray.prototype.set\<close>, a bigint division by zero).
\<close>

datatype error =
    IncompleteShape | IncompleteCols | MissingDType | NoOverload
  | UnequalRows | UnequalCols
  | IdfNotInitialized
  | TypeError | RangeError

text \<open>
  A value read from an array or produced by arithmetic: a number (an IEEE double, kept
  abstract as the type parameter \<open>'n\<close>), a bigint (unbounded) or \<^verbatim>\<open>undefined\<close>
  (what an out-of-range index of a typed array reads).
\<close>

datatype 'n jsval = Number 'n | BigInt int | Undefined

text \<open>
  The operations on doubles that the code uses. They are parameters: nothing is assumed
  about them (addition need not be associative), so that every statement made for an
  arbitrary \<open>N\<close> holds for the floating-point operations themselves. \<open>lit k\<close> is the
  double nearest to the integer \<open>k\<close> (numeric literals, dimensions and lengths, and
  \<^verbatim>\<open>Number(b)\<close> of a bigint).
\<close>

record 'n number_ops =
  nan :: 'n
  lit :: "int \<Rightarrow> 'n"
  nadd :: "'n \<Rightarrow> 'n \<Rightarrow> 'n"
  nmul :: "'n \<Rightarrow> 'n \<Rightarrow> 'n"
  ndiv :: "'n \<Rightarrow> 'n \<Rightarrow> 'n"
  nlog :: "'n \<Rightarrow> 'n"

fun to_number :: "'n number_ops \<Rightarrow> 'n jsval \<Rightarrow> 'n" where
  "to_number N (Number x) = x"
| "to_number N (BigInt k) = lit N k"
| "to_number N Undefined = nan N"

fun is_bigint :: "'n jsval \<Rightarrow> bool" where
  "is_bigint (BigInt k) = True"
| "is_bigint (Number x) = False"
| "is_bigint Undefined = False"

text \<open>
  The binary operators \<^verbatim>\<open>+\<close>, \<^verbatim>\<open>*\<close> and \<^verbatim>\<open>/\<close>: two bigints stay bigints, a bigint
  with anything else is a TypeError, and \<^verbatim>\<open>undefined\<close> is converted to NaN. Bigint
  division truncates towards zero and raises a RangeError on a zero divisor.
\<close>

fun js_add :: "'n number_ops \<Rightarrow> 'n jsval \<Rightarrow> 'n jsval \<Rightarrow> error + 'n jsval" where
  "js_add N (BigInt a) (BigInt b) = Inr (BigInt (a + b))"
| "js_add N (BigInt a) (Number y) = Inl TypeError"
| "js_add N (BigInt a) Undefined = Inl TypeError"
| "js_add N (Number x) (BigInt b) = Inl TypeError"
| "js_add N Undefined (BigInt b) = Inl TypeError"
| "js_add N a b = Inr (Number (nadd N (to_number N a) (to_number N b)))"

fun js_mul :: "'n number_ops \<Rightarrow> 'n jsval \<Rightarrow> 'n jsval \<Rightarrow> error + 'n jsval" where
  "js_mul N (BigInt a) (BigInt b) = Inr (BigInt (a * b))"
| "js_mul N (BigInt a) (Number y) = Inl TypeError"
| "js_mul N (BigInt a) Undefined = Inl TypeError"
| "js_mul N (Number x) (BigInt b) = Inl TypeError"
| "js_mul N Undefined (BigInt b) = Inl TypeError"
| "js_mul N a b = Inr (Number (nmul N (to_number N a) (to_number N b)))"

fun js_div :: "'n number_ops \<Rightarrow> 'n jsval \<Rightarrow> 'n jsval \<Rightarrow> error + 'n jsval" where
  "js_div N (BigInt a) (BigInt b) = (if b = 0 then Inl RangeError else Inr (BigInt (a sdiv b)))"
| "js_div N (BigInt a) (Number y) = Inl TypeError"
| "js_div N (BigInt a) Undefined = Inl TypeError"
| "js_div N (Number x) (BigInt b) = Inl TypeError"
| "js_div N Undefined (BigInt b) = Inl TypeError"
| "js_div N a b = Inr (Number (ndiv N (to_number N a) (to_number N b)))"

section \<open>Typed arrays and the element-kind registry\<close>

text \<open>
  Modelled from the spec: \<^verbatim>\<open>getConstructor\<close> and \<^verbatim>\<open>getDataType\<close> are imported from
  \<^verbatim>\<open>./mod.ts\<close>, which is not among the sources. An entry of the registry is the typed-array
  class of one element kind: its tag, the value a freshly allocated array is filled with,
  how a stored element reads as a value (\<open>load\<close>) and how a value is coerced when it is
  stored (\<open>store\<close>, which raises a TypeError when a 64-bit integer array is given a
  non-bigint or the other way round). A typed array of that class is the list of its
  stored elements; its length never changes.
\<close>

record ('a, 'n) kind =
  tag :: DataType
  fill :: 'a
  load :: "'a \<Rightarrow> 'n jsval"
  store :: "'n jsval \<Rightarrow> error + 'a"

definition new_array :: "('a, 'n) kind \<Rightarrow> nat \<Rightarrow> 'a list" where
  \<comment> \<open>\<^verbatim>\<open>new C(n)\<close>\<close>
  "new_array K n = replicate n (fill K)"

definition read_elem :: "('a, 'n) kind \<Rightarrow> 'a list \<Rightarrow> nat \<Rightarrow> 'n jsval" where
  \<comment> \<open>\<^verbatim>\<open>xs[i]\<close>: \<^verbatim>\<open>undefined\<close> out of range\<close>
  "read_elem K xs i = (if i < length xs then load K (xs ! i) else Undefined)"

definition write_elem :: "('a, 'n) kind \<Rightarrow> 'a list \<Rightarrow> nat \<Rightarrow> 'n jsval \<Rightarrow> error + 'a list" where
  \<comment> \<open>\<^verbatim>\<open>xs[i] = v\<close>: the value is coerced first (and may raise), a write out of range is
      dropped\<close>
  "write_elem K xs i v = (case store K v of Inl e \<Rightarrow> Inl e | Inr a \<Rightarrow> Inr (xs[i := a]))"

definition ta_slice :: "'a list \<Rightarrow> nat \<Rightarrow> nat \<Rightarrow> 'a list" where
  \<comment> \<open>\<^verbatim>\<open>xs.slice(a, b)\<close>: a copy, both ends clamped to the length\<close>
  "ta_slice xs a b = take (b - a) (drop a xs)"

definition set_typed :: "'a list \<Rightarrow> 'a list \<Rightarrow> nat \<Rightarrow> error + 'a list" where
  \<comment> \<open>\<^verbatim>\<open>tgt.set(src, off)\<close> for a source typed array of the same class\<close>
  "set_typed tgt src off =
     (if length tgt < off + length src then Inl RangeError
      else Inr (take off tgt @ src @ drop (off + length src) tgt))"

fun set_elems :: "('a, 'n) kind \<Rightarrow> 'n jsval list \<Rightarrow> nat \<Rightarrow> 'a list \<Rightarrow> 'a list \<times> error option" where
  "set_elems K [] off tgt = (tgt, None)"
| "set_elems K (v # vs) off tgt =
     (case store K v of
        Inl e \<Rightarrow> (tgt, Some e)
      | Inr a \<Rightarrow> set_elems K vs (off + 1) (tgt[off := a]))"

definition set_array_like :: "('a, 'n) kind \<Rightarrow> 'a list \<Rightarrow> 'n jsval list \<Rightarrow> nat \<Rightarrow> 'a list \<times> error option" where
  \<comment> \<open>\<^verbatim>\<open>tgt.set(src, off)\<close> for an array-like source: the range is checked before anything
      is written, then the elements are stored one by one; a store that raises leaves the
      earlier ones written\<close>
  "set_array_like K tgt src off =
     (if length tgt < off + length src then (tgt, Some RangeError)
      else set_elems K src off tgt)"

fun from_values :: "('a, 'n) kind \<Rightarrow> 'n jsval list \<Rightarrow> error + 'a list" where
  \<comment> \<open>\<^verbatim>\<open>C.from(values)\<close>\<close>
  "from_values K [] = Inr []"
| "from_values K (v # vs) =
     (case store K v of
        Inl e \<Rightarrow> Inl e
      | Inr a \<Rightarrow> (case from_values K vs of Inl e \<Rightarrow> Inl e | Inr as \<Rightarrow> Inr (a # as)))"

definition array_like_get :: "'n jsval list \<Rightarrow> nat \<Rightarrow> 'n jsval" where
  \<comment> \<open>\<^verbatim>\<open>val[i]\<close> of an array-like of values\<close>
  "array_like_get vs i = (if i < length vs then vs ! i else Undefined)"

text \<open>
  The loop \<^verbatim>\<open>let i = i0; while (i < n) { body; i += 1; }\<close> over a state \<open>s\<close>; an
  exception raised by the body leaves the loop.
\<close>

function count_loop :: "nat \<Rightarrow> nat \<Rightarrow> (nat \<Rightarrow> 's \<Rightarrow> error + 's) \<Rightarrow> 's \<Rightarrow> error + 's" where
  "count_loop i n body s =
     (if i < n then
        (case body i s of Inl e \<Rightarrow> Inl e | Inr s' \<Rightarrow> count_loop (i + 1) n body s')
      else Inr s)"
  by pat_completeness auto
termination
  by (relation "measure (\<lambda>(i, n, body, s). n - i)") auto

declare count_loop.simps [simp del]

section \<open>Matrix\<close>

record 'a Matrix =
  dType :: DataType
  nRows :: nat
  nCols :: nat
  data :: "'a list"

text \<open>
  The first argument of the constructor, by the test that recognises it, and its second
  argument. A shape is a pair whose second component may be missing
  (\<^verbatim>\<open>typeof shape[1] === "number"\<close>).
\<close>

datatype ('a, 'n) ctor_data =
    TypedArrayArg "'a list"
  | StringArg DataType
  | ArrayArg "'n jsval list list"
  | ObjectArg "'a list option" "(nat \<times> nat option) option"

record ctor_config =
  cfg_shape :: "(nat \<times> nat option) option"
  cfg_dType :: "DataType option"

text \<open>
  The row and column counts that callers pass are natural numbers, and the operations
  below are those of a matrix whose two counts are natural numbers: the record above.
  The constructor checks no count, and two expressions of the source can store a number
  that is not a count: the quotient \<^verbatim>\<open>this.data.length / shape[0]\<close> (a fraction, or
  Infinity or NaN when the row count is 0) and the difference \<^verbatim>\<open>end - start\<close> of
  \<^verbatim>\<open>slice\<close> (negative when the start lies beyond the end). \<open>Finite q\<close> is the double
  nearest to the rational \<open>q\<close>. An object that holds such a number is kept as it is
  built, with the four fields \<^verbatim>\<open>dType\<close>, \<^verbatim>\<open>nRows\<close>, \<^verbatim>\<open>nCols\<close>, \<^verbatim>\<open>data\<close> it
  holds (\<open>Improper\<close>); no operation is modelled on it.
\<close>

datatype extent = Finite rat | Infinite | NotANumber

definition js_quotient :: "nat \<Rightarrow> nat \<Rightarrow> extent" where
  \<comment> \<open>\<^verbatim>\<open>a / b\<close> for two natural numbers\<close>
  "js_quotient a b =
     (if b = 0 then (if a = 0 then NotANumber else Infinite) else Finite (of_nat a / of_nat b))"

datatype 'a constructed =
    Proper "'a Matrix"
  | Improper DataType extent extent "'a list"

definition adopt :: "DataType \<Rightarrow> 'a list \<Rightarrow> nat \<Rightarrow> nat option \<Rightarrow> 'a constructed" where
  \<comment> \<open>the buffer is adopted with the row count \<^verbatim>\<open>shape[0]\<close> and the column count
      \<^verbatim>\<open>typeof shape[1] === "number" ? shape[1] : this.data.length / shape[0]\<close>; the
      quotient is a natural number exactly when the row count is positive and divides the
      length\<close>
  "adopt d buf r c =
     (case c of
        Some n \<Rightarrow> Proper \<lparr>dType = d, nRows = r, nCols = n, data = buf\<rparr>
      | None \<Rightarrow>
          if 0 < r \<and> r dvd length buf
          then Proper \<lparr>dType = d, nRows = r, nCols = length buf div r, data = buf\<rparr>
          else Improper d (Finite (of_nat r)) (js_quotient (length buf) r) buf)"

fun new_Matrix :: "('a, 'n) kind \<Rightarrow> ('a, 'n) ctor_data \<Rightarrow> ctor_config \<Rightarrow> error + 'a constructed" where
  "new_Matrix K (TypedArrayArg buf) cfg =
     (case cfg_shape cfg of
        None \<Rightarrow> Inl IncompleteShape
      | Some (r, c) \<Rightarrow> Inr (adopt (tag K) buf r c))"
| "new_Matrix K (StringArg d) cfg =
     (case cfg_shape cfg of
        None \<Rightarrow> Inl IncompleteShape
      | Some (r, None) \<Rightarrow> Inl IncompleteCols
      | Some (r, Some c) \<Rightarrow>
          Inr (Proper \<lparr>dType = d, nRows = r, nCols = c, data = new_array K (r * c)\<rparr>))"
| "new_Matrix K (ArrayArg rows) cfg =
     (case cfg_dType cfg of
        None \<Rightarrow> Inl MissingDType
      | Some d \<Rightarrow>
          (case rows of
             [] \<Rightarrow> Inl TypeError
           | r0 # rest \<Rightarrow>
               (case from_values K (concat rows) of
                  Inl e \<Rightarrow> Inl e
                | Inr buf \<Rightarrow>
                    Inr (Proper \<lparr>dType = d, nRows = length rows, nCols = length r0, data = buf\<rparr>))))"
| "new_Matrix K (ObjectArg (Some buf) (Some (r, c))) cfg = Inr (adopt (tag K) buf r c)"
| "new_Matrix K (ObjectArg b s) cfg = Inl NoOverload"

definition item :: "('a, 'n) kind \<Rightarrow> 'a Matrix \<Rightarrow> nat \<Rightarrow> nat \<Rightarrow> 'n jsval" where
  "item K m r c = read_elem K (data m) (r * nCols m + c)"

definition row :: "'a Matrix \<Rightarrow> nat \<Rightarrow> 'a list" where
  "row m n = ta_slice (data m) (n * nCols m) ((n + 1) * nCols m)"

definition col :: "('a, 'n) kind \<Rightarrow> 'a Matrix \<Rightarrow> nat \<Rightarrow> error + 'a list" where
  \<comment> \<open>the loop state is the column under construction and the running offset\<close>
  "col K m n =
     (case count_loop 0 (nRows m)
             (\<lambda>i (c, offset).
                case write_elem K c i (read_elem K (data m) (offset + n)) of
                  Inl e \<Rightarrow> Inl e
                | Inr c' \<Rightarrow> Inr (c', offset + nCols m))
             (new_array K (nRows m), 0) of
        Inl e \<Rightarrow> Inl e
      | Inr (c, offset) \<Rightarrow> Inr c)"

definition cols :: "('a, 'n) kind \<Rightarrow> 'a Matrix \<Rightarrow> error + 'a list list" where
  \<comment> \<open>the generator \<^verbatim>\<open>*cols()\<close>, run to its end: the list of the columns it yields\<close>
  "cols K m =
     count_loop 0 (nCols m)
       (\<lambda>i yielded.
          case count_loop 0 (nRows m)
                 (\<lambda>j c. write_elem K c j (read_elem K (data m) (j * nCols m + i)))
                 (new_array K (nRows m)) of
            Inl e \<Rightarrow> Inl e
          | Inr c \<Rightarrow> Inr (yielded @ [c]))
       []"

fun T_loop :: "nat \<Rightarrow> nat \<Rightarrow> 'a list list \<Rightarrow> 'a list \<Rightarrow> error + 'a list" where
  \<comment> \<open>\<^verbatim>\<open>for (const col of this.cols()) { resArr.set(col, i * this.nRows); i += 1; }\<close>\<close>
  "T_loop nr i [] resArr = Inr resArr"
| "T_loop nr i (c # cs) resArr =
     (case set_typed resArr c (i * nr) of
        Inl e \<Rightarrow> Inl e
      | Inr resArr' \<Rightarrow> T_loop nr (i + 1) cs resArr')"

definition T :: "('a, 'n) kind \<Rightarrow> 'a Matrix \<Rightarrow> error + 'a constructed" where
  "T K m =
     (case cols K m of
        Inl e \<Rightarrow> Inl e
      | Inr cs \<Rightarrow>
          (case T_loop (nRows m) 0 cs (new_array K (nRows m * nCols m)) of
             Inl e \<Rightarrow> Inl e
           | Inr resArr \<Rightarrow>
               new_Matrix K (TypedArrayArg resArr)
                 \<lparr>cfg_shape = Some (nCols m, Some (nRows m)), cfg_dType = None\<rparr>))"

definition add_into :: "'n number_ops \<Rightarrow> ('a, 'n) kind \<Rightarrow> 'a list \<Rightarrow> nat \<Rightarrow> 'n jsval \<Rightarrow> error + 'a list" where
  \<comment> \<open>\<^verbatim>\<open>sum[j] += v\<close>, that is \<^verbatim>\<open>sum[j] = sum[j] + v\<close>\<close>
  "add_into N K sumv j v =
     (case js_add N (read_elem K sumv j) v of Inl e \<Rightarrow> Inl e | Inr s \<Rightarrow> write_elem K sumv j s)"

definition rowSum :: "'n number_ops \<Rightarrow> ('a, 'n) kind \<Rightarrow> 'a Matrix \<Rightarrow> error + 'a list" where
  \<comment> \<open>the state of the outer loop is the sum vector and the running offset\<close>
  "rowSum N K m =
     (case count_loop 0 (nRows m)
             (\<lambda>i (sumv, offset).
                case count_loop 0 (nCols m)
                       (\<lambda>j sumv. add_into N K sumv j (read_elem K (data m) (offset + j))) sumv of
                  Inl e \<Rightarrow> Inl e
                | Inr sumv' \<Rightarrow> Inr (sumv', offset + nCols m))
             (new_array K (nCols m), 0) of
        Inl e \<Rightarrow> Inl e
      | Inr (sumv, offset) \<Rightarrow> Inr sumv)"

definition colSum :: "'n number_ops \<Rightarrow> ('a, 'n) kind \<Rightarrow> 'a Matrix \<Rightarrow> error + 'a list" where
  "colSum N K m =
     count_loop 0 (nCols m)
       (\<lambda>i sumv. count_loop 0 (nRows m) (\<lambda>j sumv. add_into N K sumv j (item K m j i)) sumv)
       (new_array K (nRows m))"

definition count_divisor :: "'n number_ops \<Rightarrow> ('a, 'n) kind \<Rightarrow> 'a Matrix \<Rightarrow> nat \<Rightarrow> 'n jsval" where
  \<comment> \<open>\<^verbatim>\<open>typeof this.data[0] === "bigint" ? BigInt(count) : count\<close>\<close>
  "count_divisor N K m count =
     (if is_bigint (read_elem K (data m) 0) then BigInt (int count) else Number (lit N (int count)))"

definition divide_all :: "'n number_ops \<Rightarrow> ('a, 'n) kind \<Rightarrow> 'n jsval \<Rightarrow> 'a list \<Rightarrow> error + 'a list" where
  \<comment> \<open>\<^verbatim>\<open>while (i < sum.length) { sum[i] = sum[i] / divisor; i += 1; }\<close>\<close>
  "divide_all N K divisor sumv =
     count_loop 0 (length sumv)
       (\<lambda>i sumv. case js_div N (read_elem K sumv i) divisor of
                   Inl e \<Rightarrow> Inl e
                 | Inr q \<Rightarrow> write_elem K sumv i q)
       sumv"

definition rowMean :: "'n number_ops \<Rightarrow> ('a, 'n) kind \<Rightarrow> 'a Matrix \<Rightarrow> error + 'a list" where
  "rowMean N K m =
     (case rowSum N K m of
        Inl e \<Rightarrow> Inl e
      | Inr sumv \<Rightarrow> divide_all N K (count_divisor N K m (nRows m)) sumv)"

definition colMean :: "'n number_ops \<Rightarrow> ('a, 'n) kind \<Rightarrow> 'a Matrix \<Rightarrow> error + 'a list" where
  "colMean N K m =
     (case colSum N K m of
        Inl e \<Rightarrow> Inl e
      | Inr sumv \<Rightarrow> divide_all N K (count_divisor N K m (nCols m)) sumv)"

definition dot :: "'n number_ops \<Rightarrow> ('a, 'n) kind \<Rightarrow> 'a Matrix \<Rightarrow> 'a Matrix \<Rightarrow> error + 'n jsval" where
  "dot N K m rhs =
     (if nRows rhs \<noteq> nRows m then Inl UnequalRows
      else if nCols rhs \<noteq> nCols m then Inl UnequalCols
      else
        count_loop 0 (nCols m)
          (\<lambda>j res.
             count_loop 0 (nRows m)
               (\<lambda>i res. case js_mul N (item K m i j) (item K rhs i j) of
                           Inl e \<Rightarrow> Inl e
                         | Inr adder \<Rightarrow> js_add N res adder)
               res)
          (if is_bigint (read_elem K (data m) 0) then BigInt 0 else Number (lit N 0)))"

text \<open>
  The four mutators change \<^verbatim>\<open>this.data\<close> in place. Each returns the matrix after the
  call together with the exception the call raised, if any: a loop that raises half-way
  leaves its earlier writes in the buffer. The number that \<^verbatim>\<open>setCol\<close> returns (its
  column argument) is left out.
\<close>

definition setAdd :: "'n number_ops \<Rightarrow> ('a, 'n) kind \<Rightarrow> 'a Matrix \<Rightarrow> nat \<Rightarrow> nat \<Rightarrow> 'n jsval \<Rightarrow> 'a Matrix \<times> error option" where
  "setAdd N K m r c v =
     (case add_into N K (data m) (r * nCols m + c) v of
        Inl e \<Rightarrow> (m, Some e)
      | Inr d \<Rightarrow> (m\<lparr>data := d\<rparr>, None))"

definition setCell :: "('a, 'n) kind \<Rightarrow> 'a Matrix \<Rightarrow> nat \<Rightarrow> nat \<Rightarrow> 'n jsval \<Rightarrow> 'a Matrix \<times> error option" where
  "setCell K m r c v =
     (case write_elem K (data m) (r * nCols m + c) v of
        Inl e \<Rightarrow> (m, Some e)
      | Inr d \<Rightarrow> (m\<lparr>data := d\<rparr>, None))"

function setCol_loop :: "('a, 'n) kind \<Rightarrow> nat \<Rightarrow> 'n jsval list \<Rightarrow> nat \<Rightarrow> 'a Matrix \<Rightarrow> 'a Matrix \<times> error option" where
  "setCol_loop K c val i m =
     (if i < nRows m then
        (case write_elem K (data m) (i * nCols m + c) (array_like_get val i) of
           Inl e \<Rightarrow> (m, Some e)
         | Inr d \<Rightarrow> setCol_loop K c val (i + 1) (m\<lparr>data := d\<rparr>))
      else (m, None))"
  by pat_completeness auto
termination
  by (relation "measure (\<lambda>(K, c, val, i, m). nRows m - i)") auto

declare setCol_loop.simps [simp del]

definition setCol :: "('a, 'n) kind \<Rightarrow> 'a Matrix \<Rightarrow> nat \<Rightarrow> 'n jsval list \<Rightarrow> 'a Matrix \<times> error option" where
  "setCol K m c val = setCol_loop K c val 0 m"

definition setRow :: "('a, 'n) kind \<Rightarrow> 'a Matrix \<Rightarrow> nat \<Rightarrow> 'n jsval list \<Rightarrow> 'a Matrix \<times> error option" where
  "setRow K m r val =
     (case set_array_like K (data m) val (r * nCols m) of (d, e) \<Rightarrow> (m\<lparr>data := d\<rparr>, e))"

text \<open>
  \<^verbatim>\<open>slice(start = 0, end?)\<close>. An argument that is left out is \<open>None\<close>; \<^verbatim>\<open>end ? a : b\<close>
  takes the second branch when \<^verbatim>\<open>end\<close> is left out and also when it is 0. The row
  count \<^verbatim>\<open>end - start\<close> (or \<^verbatim>\<open>this.nRows - start\<close>) is negative when the start lies
  beyond it: the constructor then adopts the buffer with that negative number as
  \<^verbatim>\<open>nRows\<close>.
\<close>

definition slice :: "('a, 'n) kind \<Rightarrow> 'a Matrix \<Rightarrow> nat option \<Rightarrow> nat option \<Rightarrow> error + 'a constructed" where
  "slice K m start_arg end_arg =
     (let start = (case start_arg of None \<Rightarrow> 0 | Some s \<Rightarrow> s);
          end_truthy = (case end_arg of None \<Rightarrow> False | Some e \<Rightarrow> e \<noteq> 0);
          end_value = (case end_arg of None \<Rightarrow> 0 | Some e \<Rightarrow> e);
          a = (if start \<noteq> 0 then start * nCols m else 0);
          buf = (if end_truthy then ta_slice (data m) a (end_value * nCols m)
                 else drop a (data m));
          upper = (if end_truthy then end_value else nRows m)
      in if upper < start
         then Inr (Improper (tag K) (Finite (of_int (int upper - int start)))
                     (Finite (of_nat (nCols m))) buf)
         else new_Matrix K (TypedArrayArg buf)
                \<lparr>cfg_shape = Some (upper - start, Some (nCols m)), cfg_dType = None\<rparr>)"

definition shape :: "'a Matrix \<Rightarrow> nat \<times> nat" where
  "shape m = (nRows m, nCols m)"

section \<open>Diagonal scaling and the TF-IDF transformer\<close>

text \<open>
  \<^verbatim>\<open>Float64Array\<close>: the stored elements are the doubles themselves, a stored
  \<^verbatim>\<open>undefined\<close> becomes NaN and a bigint is refused.
\<close>

definition f64_kind :: "'n number_ops \<Rightarrow> ('n, 'n) kind" where
  "f64_kind N =
     \<lparr>tag = F64, fill = lit N 0, load = Number,
      store = (\<lambda>v. case v of
                       Number x \<Rightarrow> Inr x
                     | BigInt k \<Rightarrow> Inl TypeError
                     | Undefined \<Rightarrow> Inr (nan N))\<rparr>"

text \<open>
  Modelled from the spec: \<^verbatim>\<open>tf_idf_transformer.ts\<close> builds its result with
  \<^verbatim>\<open>new Matrix(data, shape)\<close> of \<^verbatim>\<open>utils/matrix.ts\<close>, an earlier Matrix over
  \<^verbatim>\<open>Float64Array\<close> that is not among the sources. It is taken as the spec's Wrap mode:
  the buffer is adopted with the given row and column counts.
\<close>

definition wrap_Matrix :: "'a list \<Rightarrow> nat \<times> nat \<Rightarrow> 'a Matrix" where
  "wrap_Matrix buf shp = \<lparr>dType = F64, nRows = fst shp, nCols = snd shp, data = buf\<rparr>"

definition multiplyDiags :: "'n number_ops \<Rightarrow> 'n Matrix \<Rightarrow> 'n list \<Rightarrow> error + 'n Matrix" where
  "multiplyDiags N x y =
     count_loop 0 (nRows x)
       (\<lambda>i res.
          count_loop 0 (length y)
            (\<lambda>j res.
               case js_mul N (item (f64_kind N) x i j) (read_elem (f64_kind N) y j) of
                 Inl e \<Rightarrow> Inl e
               | Inr v \<Rightarrow>
                   (case setCell (f64_kind N) res i j v of
                      (res', None) \<Rightarrow> Inr res'
                    | (res', Some e) \<Rightarrow> Inl e))
            res)
       (wrap_Matrix (new_array (f64_kind N) (length (data x))) (shape x))"

record 'n TfIdfTransformer =
  idf :: "'n list option"

definition new_TfIdfTransformer :: "'n list option \<Rightarrow> 'n TfIdfTransformer" where
  \<comment> \<open>\<^verbatim>\<open>this.idf = idf ?? null\<close>\<close>
  "new_TfIdfTransformer given = \<lparr>idf = given\<rparr>"

definition idf_entry :: "'n number_ops \<Rightarrow> nat \<Rightarrow> 'n jsval \<Rightarrow> 'n" where
  \<comment> \<open>\<^verbatim>\<open>Math.log(shape.samples / Number(freq[i])) + 1\<close>\<close>
  "idf_entry N samples f =
     nadd N (nlog N (ndiv N (lit N (int samples)) (to_number N f))) (lit N 1)"

definition fit :: "'n number_ops \<Rightarrow> ('a, 'n) kind \<Rightarrow> 'n TfIdfTransformer \<Rightarrow> 'a Matrix \<Rightarrow> error + 'n TfIdfTransformer" where
  \<comment> \<open>the transformer that is returned is \<^verbatim>\<open>this\<close> after the assignment to its field\<close>
  "fit N K this d =
     (case rowSum N K d of
        Inl e \<Rightarrow> Inl e
      | Inr freq \<Rightarrow>
          (case count_loop 0 (length (new_array (f64_kind N) (length freq)))
                  (\<lambda>i v. write_elem (f64_kind N) v i
                            (Number (idf_entry N (nRows d) (read_elem K freq i))))
                  (new_array (f64_kind N) (length freq)) of
             Inl e \<Rightarrow> Inl e
           | Inr v \<Rightarrow> Inr (this\<lparr>idf := Some v\<rparr>)))"

text \<open>
  \<^verbatim>\<open>transform\<close> does not assign to \<^verbatim>\<open>this\<close>: it returns its result next to the
  transformer it was called on. Its \<^verbatim>\<open>multiplyDiags\<close> is a parameter: the transformer of
  \<^verbatim>\<open>tf_idf_transformer.ts\<close> calls the function above, the generic one imports it from
  \<^verbatim>\<open>utils/math.ts\<close>, which is not among the sources.
\<close>

definition transform :: "('m \<Rightarrow> 'n list \<Rightarrow> error + 'r) \<Rightarrow> 'n TfIdfTransformer \<Rightarrow> 'm \<Rightarrow> (error + 'r) \<times> 'n TfIdfTransformer" where
  "transform md this d =
     (case idf this of
        None \<Rightarrow> (Inl IdfNotInitialized, this)
      | Some v \<Rightarrow> (md d v, this))"

section \<open>The element kinds and an exact model of the doubles\<close>

text \<open>
  An idealised instance of the double operations, for the statements that are about the
  integer kinds and for concrete inputs: a finite double is the real number it denotes
  and arithmetic is exact; \<open>None\<close> stands for NaN and the infinities, and an operation
  on \<open>None\<close> gives \<open>None\<close> (the doubles differ from this in a division by an
  infinity, which nothing below meets). On the integers that a typed array of at most 32
  bits can hold, the sums and truncated quotients computed here are the ones double
  arithmetic computes.
\<close>

definition lift2 :: "(real \<Rightarrow> real \<Rightarrow> real) \<Rightarrow> real option \<Rightarrow> real option \<Rightarrow> real option" where
  "lift2 f a b = (case a of None \<Rightarrow> None | Some x \<Rightarrow> (case b of None \<Rightarrow> None | Some y \<Rightarrow> Some (f x y)))"

definition ideal :: "real option number_ops" where
  "ideal =
     \<lparr>nan = None,
      lit = (\<lambda>k. Some (of_int k)),
      nadd = lift2 (+),
      nmul = lift2 (*),
      ndiv = (\<lambda>a b. if b = Some 0 then None else lift2 (/) a b),
      nlog = (\<lambda>a. case a of None \<Rightarrow> None | Some x \<Rightarrow> if 0 < x then Some (ln x) else None)\<rparr>"

definition trunc :: "real \<Rightarrow> int" where
  "trunc x = (if 0 \<le> x then \<lfloor>x\<rfloor> else \<lceil>x\<rceil>)"

fun is_signed :: "DataType \<Rightarrow> bool" where
  "is_signed d = (d = I8 \<or> d = I16 \<or> d = I32 \<or> d = I64)"

fun is_wide :: "DataType \<Rightarrow> bool" where
  "is_wide d = (d = U64 \<or> d = I64)"

fun is_integer :: "DataType \<Rightarrow> bool" where
  "is_integer d = (d \<noteq> F32 \<and> d \<noteq> F64)"

fun bits :: "DataType \<Rightarrow> nat" where
  "bits U8 = 8" | "bits I8 = 8"
| "bits U16 = 16" | "bits I16 = 16"
| "bits U32 = 32" | "bits I32 = 32" | "bits F32 = 32"
| "bits U64 = 64" | "bits I64 = 64" | "bits F64 = 64"

definition word_value :: "DataType \<Rightarrow> 'w::len word \<Rightarrow> int" where
  "word_value d w = (if is_signed d then sint w else uint w)"

text \<open>
  The typed-array class of an integer kind \<open>d\<close>, over words of its width: an element
  reads as its signed or unsigned value, a bigint for the two 64-bit kinds and a number
  otherwise; a stored value is truncated towards zero and wrapped to the width, NaN and
  the infinities are stored as 0.
\<close>

definition int_kind :: "DataType \<Rightarrow> ('w::len word, real option) kind" where
  "int_kind d =
     \<lparr>tag = d, fill = 0,
      load = (\<lambda>w. if is_wide d then BigInt (word_value d w)
                   else Number (Some (of_int (word_value d w)))),
      store = (\<lambda>v. case v of
                       BigInt k \<Rightarrow> if is_wide d then Inr (word_of_int k) else Inl TypeError
                     | Number x \<Rightarrow>
                         if is_wide d then Inl TypeError
                         else Inr (case x of None \<Rightarrow> 0 | Some r \<Rightarrow> word_of_int (trunc r))
                     | Undefined \<Rightarrow> if is_wide d then Inl TypeError else Inr 0)\<rparr>"

text \<open>
  \<^verbatim>\<open>Float32Array\<close>: the stored elements are single-precision numbers, of a type
  \<open>'s\<close> of their own. A stored number is rounded to single precision (\<open>fround\<close>,
  what \<^verbatim>\<open>Math.fround\<close> computes) and an element reads as the double of the same value
  (\<open>widen\<close>); both are parameters, like the operations on doubles.
\<close>

definition f32_kind :: "'n number_ops \<Rightarrow> ('s \<Rightarrow> 'n) \<Rightarrow> ('n \<Rightarrow> 's) \<Rightarrow> ('s, 'n) kind" where
  "f32_kind N widen fround =
     \<lparr>tag = F32, fill = fround (lit N 0), load = (\<lambda>a. Number (widen a)),
      store = (\<lambda>v. case v of
                       Number x \<Rightarrow> Inr (fround x)
                     | BigInt k \<Rightarrow> Inl TypeError
                     | Undefined \<Rightarrow> Inr (fround (nan N)))\<rparr>"

section \<open>Notions used by the statements\<close>

definition well_shaped :: "'a Matrix \<Rightarrow> bool" where
  \<comment> \<open>the invariant of the data model: the buffer holds exactly the cells of the matrix\<close>
  "well_shaped m \<longleftrightarrow> length (data m) = nRows m * nCols m"

definition lossless :: "('a, 'n) kind \<Rightarrow> bool" where
  \<comment> \<open>an element read from an array of the class is stored back unchanged\<close>
  "lossless K \<longleftrightarrow> (\<forall>a. store K (load K a) = Inr a)"

definition and_then :: "error + 'a \<Rightarrow> ('a \<Rightarrow> error + 'b) \<Rightarrow> error + 'b" where
  "and_then r f = (case r of Inl e \<Rightarrow> Inl e | Inr x \<Rightarrow> f x)"

datatype 'n mutation =
    SetCell nat nat "'n jsval"
  | SetAdd nat nat "'n jsval"
  | SetRow nat "'n jsval list"
  | SetCol nat "'n jsval list"

fun mutate :: "'n number_ops \<Rightarrow> ('a, 'n) kind \<Rightarrow> 'a Matrix \<Rightarrow> 'n mutation \<Rightarrow> 'a Matrix" where
  \<comment> \<open>the matrix after one call of a public mutator, whether or not the call raised\<close>
  "mutate N K m (SetCell r c v) = fst (setCell K m r c v)"
| "mutate N K m (SetAdd r c v) = fst (setAdd N K m r c v)"
| "mutate N K m (SetRow r vs) = fst (setRow K m r vs)"
| "mutate N K m (SetCol c vs) = fst (setCol K m c vs)"

text \<open>
  Running a body over a list of indices in order, leaving at the first exception: what a
  counting loop does, said without the counter.
\<close>

fun accumulate :: "('x \<Rightarrow> 's \<Rightarrow> error + 's) \<Rightarrow> 'x list \<Rightarrow> 's \<Rightarrow> error + 's" where
  "accumulate f [] s = Inr s"
| "accumulate f (x # xs) s = (case f x s of Inl e \<Rightarrow> Inl e | Inr s' \<Rightarrow> accumulate f xs s')"

text \<open>
  The constructor inputs whose buffer has as many elements as the shape has cells: the
  constructor itself does not compare the two. With the column count left out, the row
  count must be positive and divide the length of the buffer; the Allocate mode sizes
  the buffer from the shape; the rows of the Convert mode must all have the length of
  the first.
\<close>

fun rectangular :: "('a, 'n) ctor_data \<Rightarrow> ctor_config \<Rightarrow> bool" where
  "rectangular (TypedArrayArg buf) cfg =
     (case cfg_shape cfg of
        Some (r, Some c) \<Rightarrow> length buf = r * c
      | Some (r, None) \<Rightarrow> 0 < r \<and> r dvd length buf
      | None \<Rightarrow> False)"
| "rectangular (StringArg d) cfg = True"
| "rectangular (ArrayArg rows) cfg = list_all (\<lambda>r. length r = length (hd rows)) rows"
| "rectangular (ObjectArg (Some buf) (Some (r, Some c))) cfg = (length buf = r * c)"
| "rectangular (ObjectArg (Some buf) (Some (r, None))) cfg = (0 < r \<and> r dvd length buf)"
| "rectangular (ObjectArg b s) cfg = False"

definition storable :: "('a, 'n) kind \<Rightarrow> 'n jsval list \<Rightarrow> 'a list \<Rightarrow> bool" where
  \<comment> \<open>the values \<open>vs\<close> are accepted by the class and are stored as the elements \<open>as\<close>\<close>
  "storable K vs as \<longleftrightarrow> list_all2 (\<lambda>v a. store K v = Inr a) vs as"

text \<open>
  Storing a list of values one after the other: the stored forms of the values that
  come before the first one the class refuses, and the exception of that refusal, if
  there is one.
\<close>

fun store_all :: "('a, 'n) kind \<Rightarrow> 'n jsval list \<Rightarrow> 'a list \<times> error option" where
  "store_all K [] = ([], None)"
| "store_all K (v # vs) =
     (case store K v of
        Inl e \<Rightarrow> ([], Some e)
      | Inr a \<Rightarrow> (a # fst (store_all K vs), snd (store_all K vs)))"

text \<open>
  What a floating accumulator holds after the numbers \<open>xs\<close> have been added to it one
  after the other, starting from the element \<open>z\<close>: the accumulator is read as a double
  (\<open>widen\<close>), the number is added to it, and the sum is rounded as the array rounds
  what it stores (\<open>rnd\<close>). Both are the identity for \<^verbatim>\<open>Float64Array\<close>.
\<close>

definition float_sum :: "'n number_ops \<Rightarrow> ('a \<Rightarrow> 'n) \<Rightarrow> ('n \<Rightarrow> 'a) \<Rightarrow> 'a \<Rightarrow> 'n list \<Rightarrow> 'a" where
  "float_sum N widen rnd z xs = foldl (\<lambda>a x. rnd (nadd N (widen a) x)) z xs"

text \<open>
  A model of rounding, over doubles taken as the real numbers they denote: one step of
  an accumulation (the accumulator is read, a number is added, the sum is rounded and
  stored) has a relative error of at most \<open>u\<close>, and the accumulator starts at 0.
\<close>

definition rounding :: "real \<Rightarrow> real number_ops \<Rightarrow> ('a \<Rightarrow> real) \<Rightarrow> (real \<Rightarrow> 'a) \<Rightarrow> 'a \<Rightarrow> bool" where
  "rounding u N widen rnd z \<longleftrightarrow>
     0 \<le> u \<and> widen z = 0 \<and>
     (\<forall>a x. \<bar>widen (rnd (nadd N (widen a) x)) - (widen a + x)\<bar> \<le> u * \<bar>widen a + x\<bar>)"

definition cell :: "'n number_ops \<Rightarrow> ('a, 'n) kind \<Rightarrow> 'a Matrix \<Rightarrow> nat \<Rightarrow> nat \<Rightarrow> 'n" where
  \<comment> \<open>the number that \<^verbatim>\<open>item(r, c)\<close> contributes to a sum of numbers\<close>
  "cell N K m r c = to_number N (item K m r c)"

text \<open>
  The term-frequency matrix \<open>[[1, 0, 2], [0, 1, 1]]\<close> of the spec's scenario, over
  \<^verbatim>\<open>Float64Array\<close> with the exact model of the doubles.
\<close>

definition tf_example :: "real option Matrix" where
  "tf_example =
     \<lparr>dType = F64, nRows = 2, nCols = 3,
      data = [Some 1, Some 0, Some 2, Some 0, Some 1, Some 1]\<rparr>"

text \<open>
  What diagonal scaling leaves at the flat offset \<open>p\<close> of a buffer with \<open>nc\<close>
  columns: the product with the entry of \<open>y\<close> for the column of \<open>p\<close>, or the zero of
  the fresh buffer when \<open>y\<close> has no entry for that column.
\<close>

definition scaled_cell :: "'n number_ops \<Rightarrow> 'n list \<Rightarrow> 'n list \<Rightarrow> nat \<Rightarrow> nat \<Rightarrow> 'n" where
  "scaled_cell N d y nc p =
     (if p mod nc < length y then nmul N (d ! p) (y ! (p mod nc)) else lit N 0)"

text \<open>
  The addition of an element kind is native when a fresh array holds zeros and storing
  the sum of two elements read from arrays of the kind gives their sum in the (wrapping)
  arithmetic of the stored elements.
\<close>

definition native_add :: "'n number_ops \<Rightarrow> ('a::comm_monoid_add, 'n) kind \<Rightarrow> bool" where
  "native_add N K \<longleftrightarrow>
     fill K = 0 \<and> (\<forall>a b. and_then (js_add N (load K a) (load K b)) (store K) = Inr (a + b))"

definition tag_coherent :: "('a, 'n) kind \<Rightarrow> bool" where
  \<comment> \<open>the elements of the class read as bigints exactly when its tag is a 64-bit integer kind\<close>
  "tag_coherent K \<longleftrightarrow> (\<forall>a. is_bigint (load K a) = is_wide (tag K))"

fun map_result :: "('a \<Rightarrow> error + 'b) \<Rightarrow> 'a list \<Rightarrow> error + 'b list" where
  \<comment> \<open>applying a function that may raise to each entry in turn\<close>
  "map_result f [] = Inr []"
| "map_result f (x # xs) =
     (case f x of
        Inl e \<Rightarrow> Inl e
      | Inr y \<Rightarrow> (case map_result f xs of Inl e \<Rightarrow> Inl e | Inr ys \<Rightarrow> Inr (y # ys)))"

section \<open>Counting loops\<close>

lemma count_loop_stop: "\<not> i < n \<Longrightarrow> count_loop i n body s = Inr s"
  by (simp add: count_loop.simps)

lemma count_loop_step:
  "i < n \<Longrightarrow> count_loop i n body s =
     (case body i s of Inl e \<Rightarrow> Inl e | Inr s' \<Rightarrow> count_loop (Suc i) n body s')"
  by (subst count_loop.simps) (simp split: sum.splits)

text \<open>
  A loop whose body cannot raise while an invariant \<open>I\<close> holds is a fold over the indices,
  and the invariant holds at its end.
\<close>

lemma count_loop_fold:
  assumes step: "\<And>k s. i \<le> k \<Longrightarrow> k < n \<Longrightarrow> I k s \<Longrightarrow> body k s = Inr (f k s) \<and> I (Suc k) (f k s)"
    and init: "I i s" and le: "i \<le> n"
  shows "count_loop i n body s = Inr (fold f [i..<n] s) \<and> I n (fold f [i..<n] s)"
  using assms
proof (induction "n - i" arbitrary: i s)
  case 0
  then have "i = n" by simp
  with 0 show ?case by (simp add: count_loop_stop)
next
  case (Suc d)
  then have lt: "i < n" by simp
  from Suc.prems(1) [of i s] lt Suc.prems(2)
  have b: "body i s = Inr (f i s)" and inv: "I (Suc i) (f i s)" by auto
  have "count_loop (Suc i) n body (f i s) = Inr (fold f [Suc i..<n] (f i s)) \<and>
        I n (fold f [Suc i..<n] (f i s))"
  proof (rule Suc.hyps(1))
    show "d = n - Suc i" using Suc.hyps(2) by simp
    show "\<And>k s. Suc i \<le> k \<Longrightarrow> k < n \<Longrightarrow> I k s \<Longrightarrow> body k s = Inr (f k s) \<and> I (Suc k) (f k s)"
      using Suc.prems(1) by simp
    show "I (Suc i) (f i s)" by (rule inv)
    show "Suc i \<le> n" using lt by simp
  qed
  then show ?case using lt b by (simp add: count_loop_step upt_conv_Cons)
qed

lemma count_loop_accumulate: "count_loop i n body s = accumulate body [i..<n] s"
proof (induction "n - i" arbitrary: i s)
  case 0
  then show ?case by (simp add: count_loop_stop)
next
  case (Suc d)
  then have lt: "i < n" by simp
  have "\<And>s'. count_loop (Suc i) n body s' = accumulate body [Suc i..<n] s'"
    using Suc.hyps(1) [of "Suc i"] Suc.hyps(2) by simp
  then show ?case using lt by (simp add: count_loop_step upt_conv_Cons split: sum.splits)
qed

lemma accumulate_append:
  "accumulate f (xs @ ys) s = (case accumulate f xs s of Inl e \<Rightarrow> Inl e | Inr s' \<Rightarrow> accumulate f ys s')"
  by (induction xs arbitrary: s) (auto split: sum.splits)

lemma accumulate_map: "accumulate f (map g xs) s = accumulate (\<lambda>x. f (g x)) xs s"
  by (induction xs arbitrary: s) (auto split: sum.splits)

lemma accumulate_concat_map:
  "accumulate f (concat (map g xs)) s = accumulate (\<lambda>x. accumulate f (g x)) xs s"
  by (induction xs arbitrary: s) (auto simp: accumulate_append split: sum.splits)

text \<open>Filling a fresh array cell by cell.\<close>

lemma fill_loop:
  assumes st: "\<And>j. j < n \<Longrightarrow> store K (v j) = Inr (g j)" and len: "length c0 = n"
  shows "count_loop 0 n (\<lambda>j c. write_elem K c j (v j)) c0 = Inr (map g [0..<n])"
proof -
  let ?I = "\<lambda>k c. length c = n \<and> (\<forall>j<k. c ! j = g j)"
  let ?f = "\<lambda>k c. c[k := g k]"
  have "count_loop 0 n (\<lambda>j c. write_elem K c j (v j)) c0 = Inr (fold ?f [0..<n] c0) \<and>
        ?I n (fold ?f [0..<n] c0)"
  proof (rule count_loop_fold [where I = ?I and f = ?f])
    fix k c assume "0 \<le> k" and "k < n" and inv: "?I k c"
    then show "write_elem K c k (v k) = Inr (?f k c) \<and> ?I (Suc k) (?f k c)"
      by (auto simp: write_elem_def st nth_list_update less_Suc_eq)
  qed (simp_all add: len)
  moreover have "xs = map g [0..<n]" if "length xs = n" "\<forall>j<n. xs ! j = g j" for xs
    using that by (intro nth_equalityI) simp_all
  ultimately show ?thesis by simp
qed

section \<open>Row-major and column-major enumerations of a rectangle\<close>

lemma length_concat_rect: "length (concat (map (\<lambda>i. map (f i) [0..<r]) [0..<c])) = c * r"
  by (induction c) simp_all

lemma nth_concat_rect:
  "i < c \<Longrightarrow> j < r \<Longrightarrow> concat (map (\<lambda>i. map (f i) [0..<r]) [0..<c]) ! (i * r + j) = f i j"
proof (induction c)
  case 0
  then show ?case by simp
next
  case (Suc c)
  show ?case
  proof (cases "i < c")
    case True
    then have "Suc i \<le> c" by simp
    then have "Suc i * r \<le> c * r" by (rule mult_le_mono1)
    with Suc.prems have "i * r + j < c * r" by simp
    with True Suc show ?thesis by (simp add: nth_append length_concat_rect)
  next
    case False
    with Suc.prems have "i = c" by simp
    with Suc.prems show ?thesis by (simp add: nth_append length_concat_rect)
  qed
qed

lemma concat_rect_id:
  assumes "length d = r * c"
  shows "concat (map (\<lambda>i. map (\<lambda>j. d ! (i * c + j)) [0..<c]) [0..<r]) = d"
proof (rule nth_equalityI)
  show "length (concat (map (\<lambda>i. map (\<lambda>j. d ! (i * c + j)) [0..<c]) [0..<r])) = length d"
    using assms by (simp add: length_concat_rect)
next
  fix k assume "k < length (concat (map (\<lambda>i. map (\<lambda>j. d ! (i * c + j)) [0..<c]) [0..<r]))"
  then have k: "k < r * c" by (simp add: length_concat_rect)
  then have c: "0 < c" by (cases c) simp_all
  have kd: "k div c < r" using k c by (simp add: less_mult_imp_div_less)
  have km: "k mod c < c" using c by simp
  have "concat (map (\<lambda>i. map (\<lambda>j. d ! (i * c + j)) [0..<c]) [0..<r]) ! (k div c * c + k mod c)
        = d ! (k div c * c + k mod c)"
    using kd km by (rule nth_concat_rect)
  then show "concat (map (\<lambda>i. map (\<lambda>j. d ! (i * c + j)) [0..<c]) [0..<r]) ! k = d ! k"
    by simp
qed

section \<open>The element kinds are lossless\<close>

lemma trunc_of_int: "trunc (of_int k) = k"
  by (simp add: trunc_def)

lemma lossless_int_kind: "lossless (int_kind d)"
  by (simp add: lossless_def int_kind_def word_value_def trunc_of_int)

lemma lossless_f32_kind:
  "(\<And>a. fround (widen a) = a) \<Longrightarrow> lossless (f32_kind N widen fround)"
  by (simp add: lossless_def f32_kind_def)

lemma lossless_f64_kind: "lossless (f64_kind N)"
  by (simp add: lossless_def f64_kind_def)

section \<open>Transposition\<close>

lemma cols_well_shaped:
  assumes ll: "lossless K" and ws: "length (data m) = nRows m * nCols m"
  shows "cols K m = Inr (map (\<lambda>i. map (\<lambda>j. data m ! (j * nCols m + i)) [0..<nRows m]) [0..<nCols m])"
proof -
  let ?col = "\<lambda>i. map (\<lambda>j. data m ! (j * nCols m + i)) [0..<nRows m]"
  let ?inner = "\<lambda>i. count_loop 0 (nRows m)
                  (\<lambda>j c. write_elem K c j (read_elem K (data m) (j * nCols m + i)))
                  (new_array K (nRows m))"
  have inner: "?inner i = Inr (?col i)" if "i < nCols m" for i
  proof (rule fill_loop)
    fix j assume j: "j < nRows m"
    then have "Suc j * nCols m \<le> nRows m * nCols m" by (intro mult_le_mono1) simp
    with that have "j * nCols m + i < length (data m)" by (simp add: ws)
    then show "store K (read_elem K (data m) (j * nCols m + i)) = Inr (data m ! (j * nCols m + i))"
      using ll by (simp add: read_elem_def lossless_def)
  qed (simp add: new_array_def)
  let ?I = "\<lambda>k ys. ys = map ?col [0..<k]"
  let ?f = "\<lambda>k ys. ys @ [?col k]"
  have "count_loop 0 (nCols m)
          (\<lambda>i yielded. case ?inner i of Inl e \<Rightarrow> Inl e | Inr c \<Rightarrow> Inr (yielded @ [c])) []
        = Inr (fold ?f [0..<nCols m] []) \<and> ?I (nCols m) (fold ?f [0..<nCols m] [])"
    by (rule count_loop_fold [where I = ?I and f = ?f]) (simp_all add: inner)
  then show ?thesis by (simp add: cols_def)
qed

lemma T_loop_concat:
  assumes "\<forall>c \<in> set cs. length c = nr" and "(i + length cs) * nr \<le> length res"
  shows "T_loop nr i cs res = Inr (take (i * nr) res @ concat cs @ drop ((i + length cs) * nr) res)"
  using assms
proof (induction cs arbitrary: i res)
  case Nil
  then show ?case by simp
next
  case (Cons c cs)
  have lc: "length c = nr" using Cons.prems(1) by simp
  have le: "i * nr + nr + length cs * nr \<le> length res"
    using Cons.prems(2) by (simp add: algebra_simps)
  let ?res' = "take (i * nr) res @ c @ drop (i * nr + nr) res"
  have st: "set_typed res c (i * nr) = Inr ?res'"
    using le lc by (simp add: set_typed_def)
  have "T_loop nr (i + 1) cs ?res' =
        Inr (take ((i + 1) * nr) ?res' @ concat cs @ drop ((i + 1 + length cs) * nr) ?res')"
  proof (rule Cons.IH)
    show "\<forall>c\<in>set cs. length c = nr" using Cons.prems(1) by simp
    show "(i + 1 + length cs) * nr \<le> length ?res'"
      using le lc by (simp add: algebra_simps)
  qed
  moreover have "take ((i + 1) * nr) ?res' = take (i * nr) res @ c"
    using le lc by simp
  moreover have "drop ((i + 1 + length cs) * nr) ?res' = drop ((i + length (c # cs)) * nr) res"
    using le lc by (simp add: algebra_simps)
  ultimately show ?case using st by simp
qed

lemma T_well_shaped:
  assumes ll: "lossless K" and ws: "length (data m) = nRows m * nCols m"
  shows "T K m = Inr (Proper \<lparr>dType = tag K, nRows = nCols m, nCols = nRows m,
           data = concat (map (\<lambda>i. map (\<lambda>j. data m ! (j * nCols m + i)) [0..<nRows m]) [0..<nCols m])\<rparr>)"
proof -
  let ?cs = "map (\<lambda>i. map (\<lambda>j. data m ! (j * nCols m + i)) [0..<nRows m]) [0..<nCols m]"
  have "T_loop (nRows m) 0 ?cs (new_array K (nRows m * nCols m)) =
        Inr (take (0 * nRows m) (new_array K (nRows m * nCols m)) @ concat ?cs @
             drop ((0 + length ?cs) * nRows m) (new_array K (nRows m * nCols m)))"
    by (rule T_loop_concat) (auto simp: new_array_def mult.commute)
  then have "T_loop (nRows m) 0 ?cs (new_array K (nRows m * nCols m)) = Inr (concat ?cs)"
    by (simp add: new_array_def mult.commute)
  then show ?thesis
    by (simp add: T_def cols_well_shaped [OF ll ws] adopt_def)
qed

lemma T_T_data:
  assumes ws: "length d = r * c"
  shows "concat (map (\<lambda>i. map (\<lambda>j.
           concat (map (\<lambda>i. map (\<lambda>j. d ! (j * c + i)) [0..<r]) [0..<c]) ! (j * r + i)) [0..<c]) [0..<r]) = d"
proof -
  have h: "map (\<lambda>i. map (\<lambda>j.
           concat (map (\<lambda>i. map (\<lambda>j. d ! (j * c + i)) [0..<r]) [0..<c]) ! (j * r + i)) [0..<c]) [0..<r]
        = map (\<lambda>i. map (\<lambda>j. d ! (i * c + j)) [0..<c]) [0..<r]"
    by (auto simp: nth_concat_rect)
  show ?thesis by (subst h) (rule concat_rect_id [OF ws])
qed

lemma T_T:
  assumes "lossless K" and "well_shaped m"
  shows "\<exists>t. T K m = Inr (Proper t) \<and> nRows t = nCols m \<and> nCols t = nRows m \<and>
           T K t = Inr (Proper (m\<lparr>dType := tag K\<rparr>))"
proof -
  let ?t = "\<lparr>dType = tag K, nRows = nCols m, nCols = nRows m,
           data = concat (map (\<lambda>i. map (\<lambda>j. data m ! (j * nCols m + i)) [0..<nRows m]) [0..<nCols m])\<rparr>"
  have ws: "length (data m) = nRows m * nCols m" using assms(2) by (simp add: well_shaped_def)
  have t: "T K m = Inr (Proper ?t)" by (rule T_well_shaped [OF assms(1) ws])
  have "length (data ?t) = nRows ?t * nCols ?t" by (simp add: length_concat_rect)
  from T_well_shaped [OF assms(1) this]
  have "T K ?t = Inr (Proper \<lparr>dType = tag K, nRows = nRows m, nCols = nCols m, data = data m\<rparr>)"
    by (simp add: T_T_data [OF ws])
  then have "T K ?t = Inr (Proper (m\<lparr>dType := tag K\<rparr>))" by simp
  with t show ?thesis by (intro exI [of _ ?t]) simp
qed

text \<open>
  C4. Transposing twice gives the matrix back. For every element kind whose elements
  are copied unchanged (all ten are) and every matrix whose buffer holds exactly its
  \<open>nRows * nCols\<close> cells, of any shape, \<^verbatim>\<open>m.T\<close> returns a matrix \<open>t\<close> of the swapped
  shape, \<^verbatim>\<open>t.T\<close> returns a matrix \<open>m'\<close> of the shape of \<open>m\<close> with the same buffer, and
  \<open>m'\<close> holds the value of \<open>m\<close> at every row and column.
\<close>

theorem transpose_twice:
  assumes "lossless K" and "well_shaped m"
  shows "\<exists>t m'. T K m = Inr (Proper t) \<and> T K t = Inr (Proper m') \<and>
           nRows t = nCols m \<and> nCols t = nRows m \<and>
           nRows m' = nRows m \<and> nCols m' = nCols m \<and> data m' = data m \<and>
           (\<forall>r c. item K m' r c = item K m r c)"
proof -
  from T_T [OF assms] obtain t
    where t: "T K m = Inr (Proper t)" "nRows t = nCols m" "nCols t = nRows m"
      "T K t = Inr (Proper (m\<lparr>dType := tag K\<rparr>))" by blast
  then show ?thesis by (simp add: item_def)
qed

theorem transpose_twice_witness:
  "\<exists>t m'. T (int_kind U8 :: (8 word, real option) kind)
             \<lparr>dType = U8, nRows = 2, nCols = 3, data = [1, 2, 3, 4, 5, 6]\<rparr> = Inr (Proper t) \<and>
          T (int_kind U8 :: (8 word, real option) kind) t = Inr (Proper m') \<and>
          nRows t = 3 \<and> nCols t = 2 \<and> nRows m' = 2 \<and> nCols m' = 3 \<and>
          data m' = [1, 2, 3, 4, 5, 6] \<and>
          (\<forall>r c. item (int_kind U8) m' r c =
                item (int_kind U8)
                  \<lparr>dType = U8, nRows = 2, nCols = 3, data = [1, 2, 3, 4, 5, 6 :: 8 word]\<rparr> r c)"
proof -
  have "well_shaped \<lparr>dType = U8, nRows = 2, nCols = 3, data = [1, 2, 3, 4, 5, 6 :: 8 word]\<rparr>"
    by (simp add: well_shaped_def)
  from transpose_twice [OF lossless_int_kind this, of U8] show ?thesis by simp
qed

section \<open>The shape invariant\<close>

lemma length_from_values: "from_values K vs = Inr as \<Longrightarrow> length as = length vs"
  by (induction vs arbitrary: as) (auto split: sum.splits)

lemma length_concat_uniform:
  "list_all (\<lambda>r. length r = n) rows \<Longrightarrow> length (concat rows) = length rows * n"
  by (induction rows) simp_all

lemma new_Matrix_well_shaped:
  assumes "new_Matrix K arg cfg = Inr b" and "rectangular arg cfg"
  shows "\<exists>m. b = Proper m \<and> well_shaped m"
proof (cases arg)
  case (TypedArrayArg buf)
  with assms show ?thesis
    by (auto simp: well_shaped_def adopt_def split: option.splits if_splits)
next
  case (StringArg d)
  with assms show ?thesis
    by (auto simp: well_shaped_def new_array_def split: option.splits)
next
  case (ArrayArg rows)
  with assms show ?thesis
    by (auto simp: well_shaped_def dest!: length_from_values
          dest: length_concat_uniform split: option.splits list.splits sum.splits)
next
  case (ObjectArg bo so)
  show ?thesis
  proof (cases bo)
    case None
    with ObjectArg assms show ?thesis by simp
  next
    case (Some buf)
    show ?thesis
    proof (cases so)
      case None
      with Some ObjectArg assms show ?thesis by simp
    next
      case (Some rc)
      obtain r c where rc: "rc = (r, c)" by (cases rc)
      with Some \<open>bo = Some buf\<close> ObjectArg assms show ?thesis
        by (cases c) (auto simp: well_shaped_def adopt_def split: if_splits)
    qed
  qed
qed

lemma length_set_elems: "length (fst (set_elems K vs off tgt)) = length tgt"
  by (induction vs arbitrary: off tgt) (auto split: sum.splits)

lemma setCell_frame:
  "dType (fst (setCell K m r c v)) = dType m \<and> nRows (fst (setCell K m r c v)) = nRows m \<and>
   nCols (fst (setCell K m r c v)) = nCols m \<and>
   length (data (fst (setCell K m r c v))) = length (data m)"
  by (auto simp: setCell_def write_elem_def split: sum.splits)

lemma setAdd_frame:
  "dType (fst (setAdd N K m r c v)) = dType m \<and> nRows (fst (setAdd N K m r c v)) = nRows m \<and>
   nCols (fst (setAdd N K m r c v)) = nCols m \<and>
   length (data (fst (setAdd N K m r c v))) = length (data m)"
  by (auto simp: setAdd_def add_into_def write_elem_def split: sum.splits)

lemma setRow_frame:
  "dType (fst (setRow K m r vs)) = dType m \<and> nRows (fst (setRow K m r vs)) = nRows m \<and>
   nCols (fst (setRow K m r vs)) = nCols m \<and>
   length (data (fst (setRow K m r vs))) = length (data m)"
proof -
  have "length (fst (set_array_like K (data m) vs (r * nCols m))) = length (data m)"
    by (simp add: set_array_like_def length_set_elems)
  then show ?thesis by (auto simp: setRow_def split: prod.splits)
qed

lemma setCol_loop_frame:
  "dType (fst (setCol_loop K c vs i m)) = dType m \<and> nRows (fst (setCol_loop K c vs i m)) = nRows m \<and>
   nCols (fst (setCol_loop K c vs i m)) = nCols m \<and>
   length (data (fst (setCol_loop K c vs i m))) = length (data m)"
proof (induction K c vs i m rule: setCol_loop.induct)
  case (1 K c val i m)
  show ?case
  proof (cases "i < nRows m")
    case False
    then show ?thesis by (simp add: setCol_loop.simps)
  next
    case True
    show ?thesis
    proof (cases "write_elem K (data m) (i * nCols m + c) (array_like_get val i)")
      case (Inl e)
      with True show ?thesis by (subst (1 2 3 4) setCol_loop.simps) simp
    next
      case (Inr d)
      then have "length d = length (data m)"
        by (auto simp: write_elem_def split: sum.splits)
      with "1.IH" [OF True Inr] True Inr show ?thesis
        by (subst (1 2 3 4) setCol_loop.simps) simp
    qed
  qed
qed

lemma mutate_frame:
  "dType (mutate N K m u) = dType m \<and> nRows (mutate N K m u) = nRows m \<and>
   nCols (mutate N K m u) = nCols m \<and> length (data (mutate N K m u)) = length (data m)"
  by (cases u) (simp_all add: setCell_frame setAdd_frame setRow_frame setCol_def setCol_loop_frame)

lemma mutations_frame:
  "dType (foldl (mutate N K) m us) = dType m \<and> nRows (foldl (mutate N K) m us) = nRows m \<and>
   nCols (foldl (mutate N K) m us) = nCols m \<and>
   length (data (foldl (mutate N K) m us)) = length (data m)"
  by (induction us arbitrary: m) (simp_all add: mutate_frame)

text \<open>
  With the column count left out, a row count that is 0 or does not divide the length of
  the buffer is not refused: the quotient, a fraction, Infinity or NaN, is stored as
  \<^verbatim>\<open>nCols\<close>.
\<close>

lemma new_Matrix_quotient:
  "new_Matrix (int_kind U8 :: (8 word, real option) kind) (TypedArrayArg [1, 2, 3, 4, 5])
     \<lparr>cfg_shape = Some (2, None), cfg_dType = None\<rparr>
     = Inr (Improper U8 (Finite 2) (Finite (5 / 2)) [1, 2, 3, 4, 5])"
  "new_Matrix (int_kind U8 :: (8 word, real option) kind) (TypedArrayArg [1, 2, 3, 4, 5])
     \<lparr>cfg_shape = Some (0, None), cfg_dType = None\<rparr>
     = Inr (Improper U8 (Finite 0) Infinite [1, 2, 3, 4, 5])"
  "new_Matrix (int_kind U8 :: (8 word, real option) kind) (ObjectArg (Some []) (Some (0, None))) cfg
     = Inr (Improper U8 (Finite 0) NotANumber [])"
  by (simp_all add: adopt_def js_quotient_def int_kind_def)

text \<open>
  C1, as amended. The constructor does not compare the length of a buffer with the shape
  it is given, so the invariant holds for the matrices built from a rectangular input:
  the Allocate mode always; the Wrap and MatrixLike modes when the buffer has
  \<open>rows * cols\<close> elements or, with the column count left out, when the row count is
  positive and divides the length of the buffer; the Convert mode when every row has
  the length of the first. A constructor call on such an input that raises nothing
  returns a matrix whose two counts are natural numbers and whose buffer length is
  \<open>nRows * nCols\<close>. From that
  matrix, after any sequence of calls of the four public mutators (whether or not a call
  raised), the buffer length is still \<open>nRows * nCols\<close>, the shape and the element kind
  are unchanged, and \<^verbatim>\<open>item(r, c)\<close> reads the buffer at the flat offset
  \<open>r * nCols + c\<close>.
\<close>

theorem matrix_invariant:
  assumes "new_Matrix K arg cfg = Inr b" and "rectangular arg cfg"
  shows "\<exists>m. b = Proper m \<and> length (data m) = nRows m * nCols m \<and>
           (\<forall>us. length (data (foldl (mutate N K) m us)) =
                   nRows (foldl (mutate N K) m us) * nCols (foldl (mutate N K) m us) \<and>
                 nRows (foldl (mutate N K) m us) = nRows m \<and>
                 nCols (foldl (mutate N K) m us) = nCols m \<and>
                 dType (foldl (mutate N K) m us) = dType m \<and>
                 (\<forall>r c. item K (foldl (mutate N K) m us) r c =
                          read_elem K (data (foldl (mutate N K) m us)) (r * nCols m + c)))"
proof -
  from new_Matrix_well_shaped [OF assms] obtain m
    where m: "b = Proper m" "well_shaped m" by blast
  then show ?thesis
    by (intro exI [of _ m]) (simp add: mutations_frame well_shaped_def item_def)
qed

text \<open>
  C1 as stated fails: wrapping a buffer of five elements with the shape \<open>[2, 3]\<close>
  succeeds and yields a matrix whose buffer length is not \<open>nRows * nCols\<close>.
\<close>

theorem matrix_invariant_counterexample:
  "new_Matrix (int_kind U8 :: (8 word, real option) kind) (TypedArrayArg [1, 2, 3, 4, 5])
     \<lparr>cfg_shape = Some (2, Some 3), cfg_dType = None\<rparr>
     = Inr (Proper \<lparr>dType = U8, nRows = 2, nCols = 3, data = [1, 2, 3, 4, 5]\<rparr>) \<and>
   length (data \<lparr>dType = U8, nRows = 2, nCols = 3, data = [1, 2, 3, 4, 5 :: 8 word]\<rparr>) \<noteq>
   nRows \<lparr>dType = U8, nRows = 2, nCols = 3, data = [1, 2, 3, 4, 5 :: 8 word]\<rparr> *
   nCols \<lparr>dType = U8, nRows = 2, nCols = 3, data = [1, 2, 3, 4, 5 :: 8 word]\<rparr>"
  by (simp add: adopt_def int_kind_def)

theorem matrix_invariant_witness:
  "\<exists>m. Proper \<lparr>dType = U8, nRows = 2, nCols = 2, data = [0, 0, 0, 0 :: 8 word]\<rparr> = Proper m \<and>
     length (data (foldl (mutate ideal (int_kind U8)) m
       [SetCell 0 1 (Number (Some 7)), SetRow 1 [Number (Some 1)], SetCol 0 [], SetAdd 1 1 (Number (Some 2))])) =
     nRows (foldl (mutate ideal (int_kind U8)) m
       [SetCell 0 1 (Number (Some 7)), SetRow 1 [Number (Some 1)], SetCol 0 [], SetAdd 1 1 (Number (Some 2))]) *
     nCols (foldl (mutate ideal (int_kind U8)) m
       [SetCell 0 1 (Number (Some 7)), SetRow 1 [Number (Some 1)], SetCol 0 [], SetAdd 1 1 (Number (Some 2))])"
proof -
  have c: "new_Matrix (int_kind U8 :: (8 word, real option) kind) (StringArg U8)
             \<lparr>cfg_shape = Some (2, Some 2), cfg_dType = None\<rparr> =
           Inr (Proper \<lparr>dType = U8, nRows = 2, nCols = 2, data = [0, 0, 0, 0]\<rparr>)"
    by (simp add: new_array_def int_kind_def eval_nat_numeral)
  have r: "rectangular (StringArg U8 :: (8 word, real option) ctor_data)
             \<lparr>cfg_shape = Some (2, Some 2), cfg_dType = None\<rparr>"
    by simp
  from matrix_invariant [OF c r, of ideal] show ?thesis by blast
qed

section \<open>Replacing a row or a column\<close>



lemma setRow_overflow:
  "length (data m) < r * nCols m + length vs \<Longrightarrow> setRow K m r vs = (m, Some RangeError)"
  by (simp add: setRow_def set_array_like_def)

lemma cell_index:
  assumes "c < nc"
  shows "(r * nc + c) div nc = r" and "(r * nc + c) mod nc = (c::nat)"
  using assms by simp_all

lemma cell_in_buffer: "r < nr \<Longrightarrow> c < nc \<Longrightarrow> r * nc + c < nr * (nc::nat)"
proof -
  assume "r < nr" "c < nc"
  then have "Suc r * nc \<le> nr * nc" by (intro mult_le_mono1) simp
  with \<open>c < nc\<close> show ?thesis by simp
qed


lemma setCol_loop_fold:
  assumes "\<And>i. i < nRows m \<Longrightarrow> store K (array_like_get vs i) = Inr (g i)"
    and "i \<le> nRows m"
  shows "setCol_loop K c vs i m =
           (m\<lparr>data := fold (\<lambda>k d. d[k * nCols m + c := g k]) [i..<nRows m] (data m)\<rparr>, None)"
  using assms
proof (induction "nRows m - i" arbitrary: i m)
  case 0
  then show ?case by (simp add: setCol_loop.simps)
next
  case (Suc n)
  then have lt: "i < nRows m" by simp
  let ?m' = "m\<lparr>data := (data m)[i * nCols m + c := g i]\<rparr>"
  have w: "write_elem K (data m) (i * nCols m + c) (array_like_get vs i) =
           Inr ((data m)[i * nCols m + c := g i])"
    using Suc.prems(1) [OF lt] by (simp add: write_elem_def)
  have "setCol_loop K c vs (Suc i) ?m' =
          (?m'\<lparr>data := fold (\<lambda>k d. d[k * nCols ?m' + c := g k]) [Suc i..<nRows ?m'] (data ?m')\<rparr>, None)"
    using Suc.hyps(2) lt Suc.prems(1) by (intro Suc.hyps(1)) simp_all
  then show ?case using lt w
    by (subst setCol_loop.simps) (simp add: upt_conv_Cons)
qed



lemma setCol_no_length_check:
  assumes "\<And>i. i < nRows m \<Longrightarrow> store K (array_like_get vs i) = Inr (g i)"
  shows "snd (setCol K m c vs) = None"
  unfolding setCol_def by (subst setCol_loop_fold [OF assms]) simp_all

lemma store_all_storable: "storable K vs as \<Longrightarrow> store_all K vs = (as, None)"
  unfolding storable_def
  by (induction vs as rule: list_all2_induct) simp_all









text \<open>
  A refusal half-way leaves the earlier values written: a bigint among the values for an
  array of kind \<open>U8\<close>, and an array-like that is too short for a column of kind
  \<open>U64\<close>, where the \<^verbatim>\<open>undefined\<close> read past its end is refused.
\<close>

lemma setRow_setCol_partial:
  "setRow (int_kind U8) \<lparr>dType = U8, nRows = 2, nCols = 2, data = [1, 2, 3, 4 :: 8 word]\<rparr> 0
     [Number (Some 9), BigInt 8] =
     (\<lparr>dType = U8, nRows = 2, nCols = 2, data = [9, 2, 3, 4]\<rparr>, Some TypeError)"
  "setCol (int_kind U64) \<lparr>dType = U64, nRows = 2, nCols = 2, data = [1, 2, 3, 4 :: 64 word]\<rparr> 0
     [BigInt 9] =
     (\<lparr>dType = U64, nRows = 2, nCols = 2, data = [9, 2, 3, 4]\<rparr>, Some TypeError)"
  by (simp_all add: setRow_def set_array_like_def setCol_def setCol_loop.simps write_elem_def
        array_like_get_def int_kind_def trunc_def)






section \<open>Slicing\<close>

text \<open>
  C10, as amended. For every start \<open>s\<close>, \<^verbatim>\<open>slice(s, 0)\<close> returns what
  \<^verbatim>\<open>slice(s)\<close> returns: an end of 0 behaves exactly like an end that is left out.
  For \<open>s \<le> nRows\<close> that is a matrix of shape \<open>[nRows - s, nCols]\<close> over a copy of the
  buffer from offset \<open>s * nCols\<close> on, whose row \<open>i\<close> is row \<open>s + i\<close> of the source;
  when the source holds its \<open>nRows * nCols\<close> cells, so does the result, and the result
  has cells exactly when \<open>s < nRows\<close> and the matrix has columns. At \<open>s = nRows\<close>
  the result is therefore empty: it has no rows and an empty buffer.
\<close>

theorem slice_end_zero:
  assumes "s \<le> nRows m"
  shows "(\<forall>s'. slice K m (Some s') (Some 0) = slice K m (Some s') None) \<and>
         slice K m (Some s) (Some 0) =
           Inr (Proper \<lparr>dType = tag K, nRows = nRows m - s, nCols = nCols m,
                        data = drop (s * nCols m) (data m)\<rparr>) \<and>
         (\<forall>i. row \<lparr>dType = tag K, nRows = nRows m - s, nCols = nCols m,
                    data = drop (s * nCols m) (data m)\<rparr> i = row m (s + i)) \<and>
         (well_shaped m \<longrightarrow>
            well_shaped \<lparr>dType = tag K, nRows = nRows m - s, nCols = nCols m,
                         data = drop (s * nCols m) (data m)\<rparr>) \<and>
         (well_shaped m \<longrightarrow>
            (drop (s * nCols m) (data m) \<noteq> [] \<longleftrightarrow> s < nRows m \<and> 0 < nCols m)) \<and>
         (s = nRows m \<longrightarrow> well_shaped m \<longrightarrow>
            slice K m (Some s) (Some 0) =
              Inr (Proper \<lparr>dType = tag K, nRows = 0, nCols = nCols m, data = []\<rparr>))"
proof -
  have 1: "slice K m (Some s') (Some 0) = slice K m (Some s') None" for s'
    by (simp add: slice_def Let_def)
  have 2: "slice K m (Some s) (Some 0) =
           Inr (Proper \<lparr>dType = tag K, nRows = nRows m - s, nCols = nCols m,
                        data = drop (s * nCols m) (data m)\<rparr>)"
    using assms by (simp add: slice_def Let_def adopt_def)
  have 3: "row \<lparr>dType = tag K, nRows = nRows m - s, nCols = nCols m,
                data = drop (s * nCols m) (data m)\<rparr> i = row m (s + i)" for i
    by (simp add: row_def ta_slice_def add_mult_distrib add.commute)
  have 4: "length (drop (s * nCols m) (data m)) = (nRows m - s) * nCols m" if "well_shaped m"
    using that by (simp add: well_shaped_def diff_mult_distrib)
  have 5: "drop (s * nCols m) (data m) \<noteq> [] \<longleftrightarrow> s < nRows m \<and> 0 < nCols m" if "well_shaped m"
  proof -
    have "drop (s * nCols m) (data m) \<noteq> [] \<longleftrightarrow> 0 < (nRows m - s) * nCols m"
      using 4 [OF that] by (metis length_greater_0_conv)
    then show ?thesis by simp
  qed
  have 6: "slice K m (Some s) (Some 0) =
             Inr (Proper \<lparr>dType = tag K, nRows = 0, nCols = nCols m, data = []\<rparr>)"
    if "s = nRows m" "well_shaped m"
    using 2 that by (simp add: well_shaped_def)
  show ?thesis using 1 2 3 4 5 6 by (simp add: well_shaped_def)
qed

theorem slice_end_zero_witness:
  "slice (int_kind U8) \<lparr>dType = U8, nRows = 3, nCols = 2, data = [1, 2, 3, 4, 5, 6 :: 8 word]\<rparr>
     (Some 1) (Some 0) =
   Inr (Proper \<lparr>dType = U8, nRows = 2, nCols = 2, data = [3, 4, 5, 6]\<rparr>)"
proof -
  have "(1::nat) \<le> nRows \<lparr>dType = U8, nRows = 3, nCols = 2, data = [1, 2, 3, 4, 5, 6 :: 8 word]\<rparr>"
    by simp
  from slice_end_zero [OF this, of "int_kind U8", THEN conjunct2, THEN conjunct1]
  show ?thesis by (simp add: int_kind_def)
qed

text \<open>
  C10 as stated fails at \<open>s = nRows\<close>: on a 2 by 2 matrix, \<^verbatim>\<open>slice(2, 0)\<close> returns
  a matrix with no rows and an empty buffer.
\<close>

theorem slice_end_zero_counterexample:
  "slice (int_kind U8) \<lparr>dType = U8, nRows = 2, nCols = 2, data = [1, 2, 3, 4 :: 8 word]\<rparr>
     (Some 2) (Some 0) =
   Inr (Proper \<lparr>dType = U8, nRows = 0, nCols = 2, data = []\<rparr>)"
  by (simp add: slice_def Let_def adopt_def int_kind_def)

text \<open>
  A start beyond the row count is not refused either: the result then carries the
  negative row count.
\<close>

lemma slice_beyond:
  "slice (int_kind U8) \<lparr>dType = U8, nRows = 2, nCols = 2, data = [1, 2, 3, 4 :: 8 word]\<rparr>
     (Some 3) (Some 0) = Inr (Improper U8 (Finite (- 1)) (Finite 2) [])"
  by (simp add: slice_def Let_def int_kind_def)

section \<open>The TF-IDF transformer\<close>

lemma fit_eq:
  "fit N K this d =
     and_then (rowSum N K d)
       (\<lambda>freq. Inr (this\<lparr>idf := Some (map (\<lambda>f. idf_entry N (nRows d) (load K f)) freq)\<rparr>))"
proof (cases "rowSum N K d")
  case (Inl e)
  then show ?thesis by (simp add: fit_def and_then_def)
next
  case (Inr freq)
  have "count_loop 0 (length freq)
          (\<lambda>i v. write_elem (f64_kind N) v i (Number (idf_entry N (nRows d) (read_elem K freq i))))
          (new_array (f64_kind N) (length freq))
        = Inr (map (\<lambda>i. idf_entry N (nRows d) (load K (freq ! i))) [0..<length freq])"
    by (rule fill_loop) (simp_all add: f64_kind_def read_elem_def new_array_def)
  moreover have "map (\<lambda>i. idf_entry N (nRows d) (load K (freq ! i))) [0..<length freq] =
                 map (\<lambda>f. idf_entry N (nRows d) (load K f)) freq"
    by (intro nth_equalityI) simp_all
  ultimately show ?thesis using Inr by (simp add: fit_def and_then_def new_array_def)
qed

lemma rowSum_tf_example: "rowSum ideal (f64_kind ideal) tf_example = Inr [Some 1, Some 1, Some 3]"
  by (simp add: rowSum_def tf_example_def count_loop.simps new_array_def f64_kind_def
        add_into_def read_elem_def write_elem_def ideal_def lift2_def eval_nat_numeral)

lemma fit_tf_example:
  "fit ideal (f64_kind ideal) (new_TfIdfTransformer None) tf_example =
     Inr \<lparr>idf = Some [Some (ln (2 / 1) + 1), Some (ln (2 / 1) + 1), Some (ln (2 / 3) + 1)]\<rparr>"
  by (simp add: fit_eq rowSum_tf_example and_then_def idf_entry_def new_TfIdfTransformer_def)
     (simp add: tf_example_def ideal_def lift2_def f64_kind_def)

text \<open>
  C7. \<^verbatim>\<open>fit\<close> takes \<open>freq\<close> to be \<^verbatim>\<open>rowSum\<close> of the matrix (and raises what
  \<^verbatim>\<open>rowSum\<close> raises), stores as \<open>idf\<close> the vector of
  \<open>log (nRows / Number freq[j]) + 1\<close> over the entries of \<open>freq\<close>, computed with the
  double operations, and returns the transformer it was called on with that field set.
  For the matrix \<open>[[1, 0, 2], [0, 1, 1]]\<close>, \<open>freq\<close> is \<open>[1, 1, 3]\<close> and \<open>idf\<close> is
  \<open>[ln (2/1) + 1, ln (2/1) + 1, ln (2/3) + 1]\<close>.
\<close>

theorem fit_idf:
  "fit N K this d =
     and_then (rowSum N K d)
       (\<lambda>freq. Inr (this\<lparr>idf := Some (map (\<lambda>f.
           nadd N (nlog N (ndiv N (lit N (int (nRows d))) (to_number N (load K f)))) (lit N 1))
           freq)\<rparr>)) \<and>
   rowSum ideal (f64_kind ideal) tf_example = Inr [Some 1, Some 1, Some 3] \<and>
   fit ideal (f64_kind ideal) (new_TfIdfTransformer None) tf_example =
     Inr \<lparr>idf = Some [Some (ln (2 / 1) + 1), Some (ln (2 / 1) + 1), Some (ln (2 / 3) + 1)]\<rparr>"
  using fit_eq [of N K this d] rowSum_tf_example fit_tf_example by (simp add: idf_entry_def)

text \<open>
  C8. While the stored \<open>idf\<close> is absent, as it is in a transformer constructed without
  one, \<^verbatim>\<open>transform\<close> raises the error "IDF not initialized yet." and the transformer
  is unchanged. After a \<^verbatim>\<open>fit\<close> that returned, the \<open>idf\<close> is present and
  \<^verbatim>\<open>transform(matrix)\<close> returns \<^verbatim>\<open>multiplyDiags(matrix, idf)\<close> for it, again
  leaving the transformer unchanged.
\<close>

theorem transform_uninitialized:
  "(idf this = None \<longrightarrow> transform md this x = (Inl IdfNotInitialized, this)) \<and>
   transform md (new_TfIdfTransformer None) x = (Inl IdfNotInitialized, new_TfIdfTransformer None) \<and>
   (\<forall>this'. fit N K this d = Inr this' \<longrightarrow>
      (\<exists>v. idf this' = Some v \<and> transform md this' x = (md x v, this')))"
  by (auto simp: transform_def new_TfIdfTransformer_def fit_eq and_then_def split: sum.splits)

theorem transform_uninitialized_witness:
  "transform (multiplyDiags ideal) (new_TfIdfTransformer None) tf_example =
     (Inl IdfNotInitialized, new_TfIdfTransformer None) \<and>
   (\<exists>v. idf \<lparr>idf = Some [Some (ln (2 / 1) + 1), Some (ln (2 / 1) + 1), Some (ln (2 / 3) + 1)]\<rparr> = Some v \<and>
        transform (multiplyDiags ideal)
          \<lparr>idf = Some [Some (ln (2 / 1) + 1), Some (ln (2 / 1) + 1), Some (ln (2 / 3) + 1)]\<rparr> tf_example =
          (multiplyDiags ideal tf_example v,
           \<lparr>idf = Some [Some (ln (2 / 1) + 1), Some (ln (2 / 1) + 1), Some (ln (2 / 3) + 1)]\<rparr>))"
proof -
  have n: "idf (new_TfIdfTransformer None :: real option TfIdfTransformer) = None"
    by (simp add: new_TfIdfTransformer_def)
  note t = transform_uninitialized [of "new_TfIdfTransformer None" "multiplyDiags ideal" tf_example
             ideal "f64_kind ideal" tf_example]
  from t [THEN conjunct1, rule_format, OF n]
       t [THEN conjunct2, THEN conjunct2, rule_format, OF fit_tf_example]
  show ?thesis by simp
qed

section \<open>Diagonal scaling\<close>

lemma f64_kind_fields:
  "tag (f64_kind N) = F64" "fill (f64_kind N) = lit N 0" "load (f64_kind N) a = Number a"
  "store (f64_kind N) (Number a) = Inr a" "store (f64_kind N) Undefined = Inr (nan N)"
  "store (f64_kind N) (BigInt k) = Inl TypeError"
  by (simp_all add: f64_kind_def)

lemma length_shifted_updates [simp]:
  "length (fold (\<lambda>j b. b[off + j := g j]) [0..<L] b) = length b"
  by (induction L) simp_all

lemma shifted_updates:
  assumes "p < length b"
  shows "fold (\<lambda>j b. b[off + j := g j]) [0..<L] b ! p =
           (if off \<le> p \<and> p < off + L then g (p - off) else b ! p)"
proof (induction L)
  case 0
  then show ?case by auto
next
  case (Suc L)
  show ?case
  proof (cases "p = off + L")
    case True
    with assms show ?thesis by simp
  next
    case False
    with Suc assms show ?thesis by (auto simp: less_Suc_eq)
  qed
qed

lemma fold_data:
  "fold (\<lambda>j r. r\<lparr>data := h j (data r)\<rparr>) js r = r\<lparr>data := fold h js (data r)\<rparr>"
  by (induction js arbitrary: r) simp_all

lemma mod_in_row:
  assumes "k * nc \<le> p" and "p < Suc k * nc"
  shows "p mod nc = p - k * (nc::nat)"
proof -
  have lt: "p - k * nc < nc" using assms by simp
  have "p = (p - k * nc) + k * nc" using assms by simp
  then have "p mod nc = ((p - k * nc) + k * nc) mod nc" by simp
  also have "\<dots> = (p - k * nc) mod nc" by (rule mod_mult_self1 [of "p - k * nc" k nc, unfolded mult.commute [of nc k]])
  finally show ?thesis using lt by simp
qed

lemma md_row_step:
  assumes lb: "length b = nr * nc" and ld: "length d = nr * nc" and k: "k < nr"
    and before: "\<forall>p. p < k * nc \<longrightarrow> b ! p = scaled_cell N d y nc p"
    and untouched: "length y \<le> nc \<longrightarrow> (\<forall>p. k * nc \<le> p \<longrightarrow> p < nr * nc \<longrightarrow> b ! p = lit N 0)"
  defines "b' \<equiv> fold (\<lambda>j b. b[k * nc + j :=
                      nmul N (to_number N (read_elem (f64_kind N) d (k * nc + j))) (y ! j)])
                  [0..<length y] b"
  shows "length b' = nr * nc \<and>
         (\<forall>p. p < Suc k * nc \<longrightarrow> b' ! p = scaled_cell N d y nc p) \<and>
         (length y \<le> nc \<longrightarrow> (\<forall>p. Suc k * nc \<le> p \<longrightarrow> p < nr * nc \<longrightarrow> b' ! p = lit N 0))"
proof -
  have row_le: "Suc k * nc \<le> nr * nc" using k by (intro mult_le_mono1) simp
  have nth: "b' ! p = (if k * nc \<le> p \<and> p < k * nc + length y
                       then nmul N (d ! p) (y ! (p - k * nc)) else b ! p)"
    if "p < nr * nc" for p
  proof -
    have "b' ! p = (if k * nc \<le> p \<and> p < k * nc + length y
                    then nmul N (to_number N (read_elem (f64_kind N) d (k * nc + (p - k * nc))))
                           (y ! (p - k * nc))
                    else b ! p)"
      unfolding b'_def using that lb
      by (subst shifted_updates [where g = "\<lambda>j. nmul N (to_number N (read_elem (f64_kind N) d (k * nc + j))) (y ! j)"])
         simp_all
    then show ?thesis using that ld by (auto simp: read_elem_def f64_kind_fields)
  qed
  have 1: "length b' = nr * nc" by (simp add: b'_def lb)
  have 2: "b' ! p = scaled_cell N d y nc p" if p: "p < Suc k * nc" for p
  proof (cases "p < k * nc")
    case True
    with p row_le before show ?thesis by (simp add: nth)
  next
    case False
    then have ge: "k * nc \<le> p" by simp
    have m: "p mod nc = p - k * nc" by (rule mod_in_row [OF ge p])
    have pl: "p < nr * nc" using p row_le by simp
    show ?thesis
    proof (cases "p - k * nc < length y")
      case True
      with ge have "p < k * nc + length y" by simp
      with ge pl True show ?thesis by (simp add: nth scaled_cell_def m)
    next
      case False
      then have "\<not> p < k * nc + length y" using ge by simp
      moreover have "length y \<le> nc" using False p ge by simp
      ultimately show ?thesis using untouched ge pl False
        by (simp add: nth scaled_cell_def m)
    qed
  qed
  have 3: "b' ! p = lit N 0" if "length y \<le> nc" "Suc k * nc \<le> p" "p < nr * nc" for p
  proof -
    have "\<not> p < k * nc + length y" using that by simp
    moreover have "k * nc \<le> p" using that by simp
    ultimately show ?thesis using untouched that by (simp add: nth)
  qed
  show ?thesis using 1 2 3 by blast
qed

lemma md_inner:
  fixes N :: "'n number_ops" and res :: "'n Matrix"
  assumes nc: "nCols res = nCols x"
  shows "count_loop 0 (length y)
           (\<lambda>j res.
              case js_mul N (item (f64_kind N) x i j) (read_elem (f64_kind N) y j) of
                Inl e \<Rightarrow> Inl e
              | Inr v \<Rightarrow>
                  (case setCell (f64_kind N) res i j v of
                     (res', None) \<Rightarrow> Inr res'
                   | (res', Some e) \<Rightarrow> Inl e))
           res =
         Inr (res\<lparr>data := fold (\<lambda>j b. b[i * nCols x + j :=
                 nmul N (to_number N (read_elem (f64_kind N) (data x) (i * nCols x + j))) (y ! j)])
               [0..<length y] (data res)\<rparr>)"
proof -
  let ?h = "\<lambda>j b. b[i * nCols x + j :=
              nmul N (to_number N (read_elem (f64_kind N) (data x) (i * nCols x + j))) (y ! j)]"
  let ?f = "\<lambda>j (r :: 'n Matrix). r\<lparr>data := ?h j (data r)\<rparr>"
  let ?I = "\<lambda>(k::nat) (r :: 'n Matrix). nCols r = nCols x"
  let ?body = "\<lambda>j res.
              case js_mul N (item (f64_kind N) x i j) (read_elem (f64_kind N) y j) of
                Inl e \<Rightarrow> Inl e
              | Inr v \<Rightarrow>
                  (case setCell (f64_kind N) res i j v of
                     (res', None) \<Rightarrow> Inr res'
                   | (res', Some e) \<Rightarrow> Inl e)"
  have "count_loop 0 (length y) ?body res = Inr (fold ?f [0..<length y] res) \<and>
        ?I (length y) (fold ?f [0..<length y] res)"
  proof (rule count_loop_fold [where I = ?I and f = ?f])
    fix k and r :: "'n Matrix" assume "0 \<le> k" and k: "k < length y" and inv: "?I k r"
    have y: "read_elem (f64_kind N) y k = Number (y ! k)"
      using k by (simp add: read_elem_def f64_kind_fields)
    have m: "js_mul N (item (f64_kind N) x i k) (Number (y ! k)) =
          Inr (Number (nmul N (to_number N (read_elem (f64_kind N) (data x) (i * nCols x + k))) (y ! k)))"
      by (simp add: item_def read_elem_def f64_kind_fields)
    show "?body k r = Inr (?f k r) \<and> ?I (Suc k) (?f k r)"
      using inv by (simp add: y m setCell_def write_elem_def f64_kind_fields)
  qed (simp_all add: nc)
  then show ?thesis by (simp add: fold_data [of ?h])
qed

lemma multiplyDiags_data:
  fixes N :: "'n number_ops"
  assumes ws: "well_shaped x"
  shows "\<exists>res. multiplyDiags N x y = Inr res \<and> dType res = F64 \<and>
           nRows res = nRows x \<and> nCols res = nCols x \<and>
           length (data res) = nRows x * nCols x \<and>
           (\<forall>p. p < nRows x * nCols x \<longrightarrow> data res ! p = scaled_cell N (data x) y (nCols x) p)"
proof -
  let ?nr = "nRows x" and ?nc = "nCols x" and ?d = "data x"
  have ld: "length ?d = ?nr * ?nc" using ws by (simp add: well_shaped_def)
  let ?h = "\<lambda>i b. fold (\<lambda>j b. b[i * ?nc + j :=
                nmul N (to_number N (read_elem (f64_kind N) ?d (i * ?nc + j))) (y ! j)])
              [0..<length y] b"
  let ?f = "\<lambda>i (r :: 'n Matrix). r\<lparr>data := ?h i (data r)\<rparr>"
  let ?I = "\<lambda>k (r :: 'n Matrix). dType r = F64 \<and> nRows r = ?nr \<and> nCols r = ?nc \<and>
              length (data r) = ?nr * ?nc \<and>
              (\<forall>p. p < k * ?nc \<longrightarrow> data r ! p = scaled_cell N ?d y ?nc p) \<and>
              (length y \<le> ?nc \<longrightarrow> (\<forall>p. k * ?nc \<le> p \<longrightarrow> p < ?nr * ?nc \<longrightarrow> data r ! p = lit N 0))"
  let ?inner = "\<lambda>i res. count_loop 0 (length y)
           (\<lambda>j res.
              case js_mul N (item (f64_kind N) x i j) (read_elem (f64_kind N) y j) of
                Inl e \<Rightarrow> Inl e
              | Inr v \<Rightarrow>
                  (case setCell (f64_kind N) res i j v of
                     (res', None) \<Rightarrow> Inr res'
                   | (res', Some e) \<Rightarrow> Inl e))
           res"
  let ?r0 = "wrap_Matrix (new_array (f64_kind N) (length ?d)) (shape x)"
  have "count_loop 0 ?nr ?inner ?r0 = Inr (fold ?f [0..<?nr] ?r0) \<and> ?I ?nr (fold ?f [0..<?nr] ?r0)"
  proof (rule count_loop_fold [where I = ?I and f = ?f])
    fix k and r :: "'n Matrix" assume "0 \<le> k" and k: "k < ?nr" and inv: "?I k r"
    from inv have "?inner k r = Inr (?f k r)" by (intro md_inner) simp
    moreover have "?I (Suc k) (?f k r)"
      using md_row_step [of "data r" ?nr ?nc ?d k N y] inv k ld by simp
    ultimately show "?inner k r = Inr (?f k r) \<and> ?I (Suc k) (?f k r)" by simp
  next
    show "?I 0 ?r0"
      by (simp add: wrap_Matrix_def shape_def new_array_def f64_kind_fields ld)
  qed simp
  then show ?thesis by (auto simp: multiplyDiags_def)
qed

text \<open>
  C9. For a matrix \<open>x\<close> whose buffer holds its \<open>m * n\<close> cells and any vector \<open>y\<close>,
  \<^verbatim>\<open>multiplyDiags(x, y)\<close> returns a new \<open>m\<close> by \<open>n\<close> matrix whose cell \<open>(i, j)\<close> is
  \<open>x[i][j] * y[j]\<close> for every column \<open>j\<close> below the length of \<open>y\<close> and the zero of the
  fresh buffer for the other columns; entries of \<open>y\<close> past the column count do not
  show in the result (what the loop writes with them into the following row is written
  again by that row's own pass). With \<open>y\<close> the vector of \<open>n\<close> ones, and multiplication
  by 1 being the identity on doubles, the result has the buffer of \<open>x\<close>.
\<close>

theorem multiplyDiags_scales:
  fixes N :: "'n number_ops"
  assumes "well_shaped x"
  shows "\<exists>res. multiplyDiags N x y = Inr res \<and>
           nRows res = nRows x \<and> nCols res = nCols x \<and> well_shaped res \<and>
           (\<forall>i j. i < nRows x \<longrightarrow> j < nCols x \<longrightarrow>
              item (f64_kind N) res i j =
                Number (if j < length y then nmul N (data x ! (i * nCols x + j)) (y ! j)
                        else lit N 0)) \<and>
           ((\<forall>v. nmul N v (lit N 1) = v) \<longrightarrow> y = replicate (nCols x) (lit N 1) \<longrightarrow>
              data res = data x)"
proof -
  from multiplyDiags_data [OF assms, of N y] obtain res where
    r: "multiplyDiags N x y = Inr res" "nRows res = nRows x" "nCols res = nCols x"
       "length (data res) = nRows x * nCols x"
    and cells: "\<And>p. p < nRows x * nCols x \<Longrightarrow>
                  data res ! p = scaled_cell N (data x) y (nCols x) p"
    by blast
  have ld: "length (data x) = nRows x * nCols x" using assms by (simp add: well_shaped_def)
  have 1: "item (f64_kind N) res i j =
             Number (if j < length y then nmul N (data x ! (i * nCols x + j)) (y ! j) else lit N 0)"
    if "i < nRows x" "j < nCols x" for i j
  proof -
    have p: "i * nCols x + j < nRows x * nCols x" using that by (rule cell_in_buffer)
    show ?thesis
      using cells [OF p] p that(2)
      by (simp add: item_def read_elem_def r f64_kind_fields scaled_cell_def cell_index)
  qed
  have 2: "data res = data x"
    if one: "\<forall>v. nmul N v (lit N 1) = v" and y: "y = replicate (nCols x) (lit N 1)"
  proof (rule nth_equalityI)
    show "length (data res) = length (data x)" by (simp add: r ld)
  next
    fix p assume "p < length (data res)"
    then have p: "p < nRows x * nCols x" by (simp add: r)
    then have "0 < nCols x" by (cases "nCols x") simp_all
    then have "p mod nCols x < nCols x" by simp
    then show "data res ! p = data x ! p"
      using cells [OF p] one by (simp add: scaled_cell_def y)
  qed
  have 3: "well_shaped res" by (simp add: well_shaped_def r)
  show ?thesis using r 1 2 3 by blast
qed

lemma ideal_mul_one: "nmul ideal v (lit ideal 1) = v"
  by (cases v) (simp_all add: ideal_def lift2_def)

theorem multiplyDiags_scales_witness:
  "\<exists>res. multiplyDiags ideal tf_example (replicate (nCols tf_example) (lit ideal 1)) = Inr res \<and>
         nRows res = 2 \<and> nCols res = 3 \<and> data res = data tf_example"
proof -
  have ws: "well_shaped tf_example" by (simp add: well_shaped_def tf_example_def)
  from multiplyDiags_scales [OF ws, of ideal "replicate (nCols tf_example) (lit ideal 1)"]
  obtain res where
    "multiplyDiags ideal tf_example (replicate (nCols tf_example) (lit ideal 1)) = Inr res"
    "nRows res = nRows tf_example" "nCols res = nCols tf_example"
    "(\<forall>v. nmul ideal v (lit ideal 1) = v) \<longrightarrow>
       replicate (nCols tf_example) (lit ideal 1) = replicate (nCols tf_example) (lit ideal 1) \<longrightarrow>
       data res = data tf_example"
    by blast
  then show ?thesis by (auto simp: ideal_mul_one) (simp_all add: tf_example_def)
qed

section \<open>Reductions\<close>

lemma add_into_native:
  assumes "native_add N K" and "j < length s"
  shows "add_into N K s j (load K b) = Inr (s[j := s ! j + b])"
proof -
  from assms(1) have "and_then (js_add N (load K (s ! j)) (load K b)) (store K) = Inr (s ! j + b)"
    by (simp add: native_add_def)
  then show ?thesis using assms(2)
    by (auto simp: add_into_def and_then_def read_elem_def write_elem_def split: sum.splits)
qed

lemma add_loop:
  fixes s0 :: "'a::comm_monoid_add list"
  assumes na: "native_add N K" and len: "length s0 = n"
    and v: "\<And>j. j < n \<Longrightarrow> v j = load K (g j)"
  shows "count_loop 0 n (\<lambda>j s. add_into N K s j (v j)) s0 = Inr (map (\<lambda>j. s0 ! j + g j) [0..<n])"
proof -
  let ?I = "\<lambda>k (s :: 'a list). length s = n \<and> (\<forall>j<k. s ! j = s0 ! j + g j) \<and>
              (\<forall>j. k \<le> j \<longrightarrow> j < n \<longrightarrow> s ! j = s0 ! j)"
  let ?f = "\<lambda>k (s :: 'a list). s[k := s ! k + g k]"
  have "count_loop 0 n (\<lambda>j s. add_into N K s j (v j)) s0 = Inr (fold ?f [0..<n] s0) \<and>
        ?I n (fold ?f [0..<n] s0)"
  proof (rule count_loop_fold [where I = ?I and f = ?f])
    fix k and s :: "'a list" assume "0 \<le> k" and k: "k < n" and inv: "?I k s"
    have "add_into N K s k (v k) = Inr (?f k s)"
      using add_into_native [OF na, of k s "g k"] v [OF k] k inv by simp
    moreover have "?I (Suc k) (?f k s)"
      using inv k by (auto simp: nth_list_update less_Suc_eq)
    ultimately show "add_into N K s k (v k) = Inr (?f k s) \<and> ?I (Suc k) (?f k s)" by simp
  qed (simp_all add: len)
  moreover have "xs = map (\<lambda>j. s0 ! j + g j) [0..<n]"
    if "length xs = n" "\<forall>j<n. xs ! j = s0 ! j + g j" for xs :: "'a list"
    using that by (intro nth_equalityI) simp_all
  ultimately show ?thesis by simp
qed

lemma rowSum_native:
  fixes m :: "'a::comm_monoid_add Matrix"
  assumes na: "native_add N K" and ws: "well_shaped m"
  shows "rowSum N K m =
           Inr (map (\<lambda>j. \<Sum>i<nRows m. data m ! (i * nCols m + j)) [0..<nCols m])"
proof -
  let ?nr = "nRows m" and ?nc = "nCols m" and ?d = "data m"
  have ld: "length ?d = ?nr * ?nc" using ws by (simp add: well_shaped_def)
  let ?part = "\<lambda>k. map (\<lambda>j. \<Sum>i<k. ?d ! (i * ?nc + j)) [0..<?nc]"
  let ?I = "\<lambda>k (st :: 'a list \<times> nat). st = (?part k, k * ?nc)"
  let ?f = "\<lambda>k (st :: 'a list \<times> nat). (?part (Suc k), Suc k * ?nc)"
  let ?body = "\<lambda>i (sumv, offset).
                case count_loop 0 ?nc
                       (\<lambda>j sumv. add_into N K sumv j (read_elem K ?d (offset + j))) sumv of
                  Inl e \<Rightarrow> Inl e
                | Inr sumv' \<Rightarrow> Inr (sumv', offset + ?nc)"
  have "count_loop 0 ?nr ?body (new_array K ?nc, 0) =
          Inr (fold ?f [0..<?nr] (new_array K ?nc, 0)) \<and>
        ?I ?nr (fold ?f [0..<?nr] (new_array K ?nc, 0))"
  proof (rule count_loop_fold [where I = ?I and f = ?f])
    fix k and st :: "'a list \<times> nat" assume "0 \<le> k" and k: "k < ?nr" and inv: "?I k st"
    have rd: "read_elem K ?d (k * ?nc + j) = load K (?d ! (k * ?nc + j))" if "j < ?nc" for j
      using cell_in_buffer [OF k that] by (simp add: read_elem_def ld)
    have "count_loop 0 ?nc (\<lambda>j sumv. add_into N K sumv j (read_elem K ?d (k * ?nc + j))) (?part k)
          = Inr (map (\<lambda>j. ?part k ! j + ?d ! (k * ?nc + j)) [0..<?nc])"
      by (rule add_loop [OF na]) (simp_all add: rd)
    moreover have "map (\<lambda>j. ?part k ! j + ?d ! (k * ?nc + j)) [0..<?nc] = ?part (Suc k)"
      by simp
    ultimately show "?body k st = Inr (?f k st) \<and> ?I (Suc k) (?f k st)"
      using inv by simp
  next
    show "?I 0 (new_array K ?nc, 0)"
      using na by (simp add: new_array_def native_add_def map_replicate_const)
  qed simp
  then show ?thesis by (simp add: rowSum_def)
qed

lemma colSum_native:
  fixes m :: "'a::comm_monoid_add Matrix"
  assumes na: "native_add N K" and ws: "well_shaped m"
  shows "colSum N K m =
           Inr (map (\<lambda>j. \<Sum>i<nCols m. data m ! (j * nCols m + i)) [0..<nRows m])"
proof -
  let ?nr = "nRows m" and ?nc = "nCols m" and ?d = "data m"
  have ld: "length ?d = ?nr * ?nc" using ws by (simp add: well_shaped_def)
  let ?part = "\<lambda>k. map (\<lambda>j. \<Sum>i<k. ?d ! (j * ?nc + i)) [0..<?nr]"
  let ?I = "\<lambda>k (s :: 'a list). s = ?part k"
  let ?f = "\<lambda>k (s :: 'a list). ?part (Suc k)"
  let ?body = "\<lambda>i sumv. count_loop 0 ?nr (\<lambda>j sumv. add_into N K sumv j (item K m j i)) sumv"
  have "count_loop 0 ?nc ?body (new_array K ?nr) = Inr (fold ?f [0..<?nc] (new_array K ?nr)) \<and>
        ?I ?nc (fold ?f [0..<?nc] (new_array K ?nr))"
  proof (rule count_loop_fold [where I = ?I and f = ?f])
    fix k and s :: "'a list" assume "0 \<le> k" and k: "k < ?nc" and inv: "?I k s"
    have rd: "item K m j k = load K (?d ! (j * ?nc + k))" if "j < ?nr" for j
      using cell_in_buffer [OF that k] by (simp add: item_def read_elem_def ld)
    have "count_loop 0 ?nr (\<lambda>j sumv. add_into N K sumv j (item K m j k)) (?part k)
          = Inr (map (\<lambda>j. ?part k ! j + ?d ! (j * ?nc + k)) [0..<?nr])"
      by (rule add_loop [OF na]) (simp_all add: rd)
    moreover have "map (\<lambda>j. ?part k ! j + ?d ! (j * ?nc + k)) [0..<?nr] = ?part (Suc k)"
      by simp
    ultimately show "?body k s = Inr (?f k s) \<and> ?I (Suc k) (?f k s)"
      using inv by simp
  next
    show "?I 0 (new_array K ?nr)"
      using na by (simp add: new_array_def native_add_def map_replicate_const)
  qed simp
  then show ?thesis by (simp add: colSum_def)
qed

lemma sum_lessThan_add:
  fixes g :: "nat \<Rightarrow> 'a::comm_monoid_add"
  shows "(\<Sum>k<a + b. g k) = (\<Sum>k<a. g k) + (\<Sum>j<b. g (a + j))"
  by (induction b) (simp_all add: add.assoc)

lemma rect_sum:
  fixes g :: "nat \<Rightarrow> 'a::comm_monoid_add"
  shows "(\<Sum>k<nr * nc. g k) = (\<Sum>i<nr. \<Sum>j<nc. g (i * nc + j))"
proof (induction nr)
  case 0
  then show ?case by simp
next
  case (Suc nr)
  have "(\<Sum>k<Suc nr * nc. g k) = (\<Sum>k<nr * nc + nc. g k)" by (simp add: add.commute)
  also have "\<dots> = (\<Sum>k<nr * nc. g k) + (\<Sum>j<nc. g (nr * nc + j))" by (rule sum_lessThan_add)
  finally show ?case using Suc by simp
qed

lemma sum_list_upt: 
  fixes f :: "nat \<Rightarrow> 'a::comm_monoid_add"
  shows "sum_list (map f [0..<n]) = (\<Sum>i<n. f i)"
  by (induction n) simp_all

lemma sum_list_nth:
  fixes d :: "'a::comm_monoid_add list"
  shows "sum_list d = (\<Sum>k<length d. d ! k)"
proof -
  have "sum_list d = sum_list (map (\<lambda>k. d ! k) [0..<length d])" by (simp add: map_nth)
  then show ?thesis by (simp only: sum_list_upt)
qed

lemma sums_agree:
  fixes d :: "'a::comm_monoid_add list"
  assumes "length d = nr * nc"
  shows "sum_list (map (\<lambda>j. \<Sum>i<nr. d ! (i * nc + j)) [0..<nc]) = sum_list d"
    and "sum_list (map (\<lambda>j. \<Sum>i<nc. d ! (j * nc + i)) [0..<nr]) = sum_list d"
proof -
  have r: "sum_list d = (\<Sum>i<nr. \<Sum>j<nc. d ! (i * nc + j))"
    by (simp add: sum_list_nth assms rect_sum)
  show "sum_list (map (\<lambda>j. \<Sum>i<nc. d ! (j * nc + i)) [0..<nr]) = sum_list d"
    by (simp add: sum_list_upt r)
  have "sum_list (map (\<lambda>j. \<Sum>i<nr. d ! (i * nc + j)) [0..<nc]) =
        (\<Sum>j<nc. \<Sum>i<nr. d ! (i * nc + j))"
    by (simp add: sum_list_upt)
  also have "\<dots> = (\<Sum>i<nr. \<Sum>j<nc. d ! (i * nc + j))" by (rule sum.swap)
  finally show "sum_list (map (\<lambda>j. \<Sum>i<nr. d ! (i * nc + j)) [0..<nc]) = sum_list d"
    by (simp add: r)
qed

lemma word_of_value: "word_of_int (word_value d a) = a"
  by (simp add: word_value_def)

lemma trunc_add_of_int: "trunc (of_int x + of_int y) = x + y"
  by (simp add: trunc_of_int flip: of_int_add)

lemma native_add_int_kind: "native_add ideal (int_kind d :: ('w::len word, real option) kind)"
  by (simp add: native_add_def int_kind_def and_then_def ideal_def lift2_def
        word_of_value trunc_add_of_int)

lemma uint_sum_list:
  fixes xs :: "'w::len word list"
  shows "uint (sum_list xs) = sum_list (map uint xs) mod 2 ^ LENGTH('w)"
proof (induction xs)
  case Nil
  then show ?case by simp
next
  case (Cons x xs)
  have "uint (x + sum_list xs) = (uint x + uint (sum_list xs)) mod 2 ^ LENGTH('w)"
    by (simp add: uint_word_ariths)
  also have "\<dots> = (uint x + sum_list (map uint xs)) mod 2 ^ LENGTH('w)"
    by (simp add: Cons.IH mod_add_right_eq)
  finally show ?case by simp
qed

lemma count_loop_invariant:
  assumes step: "\<And>k s s'. i \<le> k \<Longrightarrow> k < n \<Longrightarrow> P s \<Longrightarrow> body k s = Inr s' \<Longrightarrow> P s'"
    and init: "P s" and ret: "count_loop i n body s = Inr t"
  shows "P t"
  using assms
proof (induction "n - i" arbitrary: i s)
  case 0
  then show ?case by (simp add: count_loop_stop)
next
  case (Suc d)
  then have lt: "i < n" by simp
  from Suc.prems(3) lt obtain s' where b: "body i s = Inr s'"
    and r: "count_loop (Suc i) n body s' = Inr t"
    by (auto simp: count_loop_step split: sum.splits)
  have "P s'" using Suc.prems(1) [of i s s'] lt Suc.prems(2) b by simp
  show ?case
  proof (rule Suc.hyps(1) [of "Suc i" s'])
    show "d = n - Suc i" using Suc.hyps(2) by simp
    show "\<And>k s s'. Suc i \<le> k \<Longrightarrow> k < n \<Longrightarrow> P s \<Longrightarrow> body k s = Inr s' \<Longrightarrow> P s'"
      using Suc.prems(1) by (metis Suc_leD)
    show "P s'" by fact
    show "count_loop (Suc i) n body s' = Inr t" by (rule r)
  qed
qed

lemma add_into_length: "add_into N K s j v = Inr s' \<Longrightarrow> length s' = length s"
  by (auto simp: add_into_def write_elem_def split: sum.splits)

lemma rowSum_length:
  assumes "rowSum N K m = Inr rs"
  shows "length rs = nCols m"
proof -
  let ?inner = "\<lambda>offset. count_loop 0 (nCols m)
                  (\<lambda>j sumv. add_into N K sumv j (read_elem K (data m) (offset + j)))"
  let ?body = "\<lambda>(i::nat) (sumv, offset).
                case ?inner offset sumv of
                  Inl e \<Rightarrow> Inl e
                | Inr sumv' \<Rightarrow> Inr (sumv', offset + nCols m)"
  from assms obtain off where r: "count_loop 0 (nRows m) ?body (new_array K (nCols m), 0) = Inr (rs, off)"
    by (auto simp: rowSum_def split: sum.splits)
  have inner: "length s' = nCols m" if "length s = nCols m" "?inner offset s = Inr s'" for s s' offset
    by (rule count_loop_invariant [where P = "\<lambda>s. length s = nCols m", OF _ that])
       (simp add: add_into_length)
  have "length (fst (rs, off)) = nCols m"
  proof (rule count_loop_invariant [where P = "\<lambda>st. length (fst st) = nCols m", OF _ _ r])
    fix k and st st' :: "'a list \<times> nat"
    assume "length (fst st) = nCols m" and "?body k st = Inr st'"
    then show "length (fst st') = nCols m"
      using inner [of "fst st" "snd st" "fst st'"]
      by (cases st) (auto split: sum.splits)
  qed (simp add: new_array_def)
  then show ?thesis by simp
qed

lemma colSum_length:
  assumes "colSum N K m = Inr cs"
  shows "length cs = nRows m"
proof -
  let ?inner = "\<lambda>i. count_loop 0 (nRows m) (\<lambda>j sumv. add_into N K sumv j (item K m j i))"
  have inner: "length s' = nRows m" if "length s = nRows m" "?inner i s = Inr s'" for s s' i
    by (rule count_loop_invariant [where P = "\<lambda>s. length s = nRows m", OF _ that])
       (simp add: add_into_length)
  show ?thesis
  proof (rule count_loop_invariant [where P = "\<lambda>s. length s = nRows m", OF _ _ assms [unfolded colSum_def]])
    fix k and s s' :: "'a list"
    assume "length s = nRows m" and "?inner k s = Inr s'"
    then show "length s' = nRows m" by (rule inner)
  qed (simp add: new_array_def)
qed

lemma fold_const: "fold (\<lambda>k s. s) xs s = s"
  by (induction xs) simp_all

lemma rowSum_empty:
  assumes "nRows m = 0 \<or> nCols m = 0"
  shows "rowSum N K m = Inr (replicate (nCols m) (fill K))"
proof (cases "nRows m = 0")
  case True
  then show ?thesis by (simp add: rowSum_def count_loop_stop new_array_def)
next
  case False
  with assms have nc: "nCols m = 0" by simp
  let ?body = "\<lambda>(i::nat) (sumv, offset).
                case count_loop 0 (nCols m)
                       (\<lambda>j sumv. add_into N K sumv j (read_elem K (data m) (offset + j))) sumv of
                  Inl e \<Rightarrow> Inl e
                | Inr sumv' \<Rightarrow> Inr (sumv', offset + nCols m)"
  have "count_loop 0 (nRows m) ?body (new_array K (nCols m), 0) =
          Inr (fold (\<lambda>k st. st) [0..<nRows m] (new_array K (nCols m), 0)) \<and>
        True"
    by (rule count_loop_fold [where I = "\<lambda>k st. True" and f = "\<lambda>k st. st"])
       (auto simp: nc count_loop_stop)
  then show ?thesis by (simp add: rowSum_def fold_const new_array_def)
qed

lemma colSum_empty:
  assumes "nRows m = 0 \<or> nCols m = 0"
  shows "colSum N K m = Inr (replicate (nRows m) (fill K))"
proof (cases "nCols m = 0")
  case True
  then show ?thesis by (simp add: colSum_def count_loop_stop new_array_def)
next
  case False
  with assms have nr: "nRows m = 0" by simp
  have "count_loop 0 (nCols m)
          (\<lambda>i sumv. count_loop 0 (nRows m) (\<lambda>j sumv. add_into N K sumv j (item K m j i)) sumv)
          (new_array K (nRows m)) =
          Inr (fold (\<lambda>k st. st) [0..<nCols m] (new_array K (nRows m))) \<and> True"
    by (rule count_loop_fold [where I = "\<lambda>k st. True" and f = "\<lambda>k st. st"])
       (auto simp: nr count_loop_stop)
  then show ?thesis by (simp add: colSum_def fold_const new_array_def)
qed

lemma read_elem_float: "(\<And>a. load K a = Number (w a)) \<Longrightarrow> \<not> is_bigint (read_elem K d p)"
  by (simp add: read_elem_def)

lemma add_into_float:
  assumes "\<And>a. load K a = Number (w a)" and "\<And>x. store K (Number x) = Inr (rnd x)"
    and "j < length s" and "\<not> is_bigint v"
  shows "add_into N K s j v = Inr (s[j := rnd (nadd N (w (s ! j)) (to_number N v))])"
  using assms by (cases v) (simp_all add: add_into_def read_elem_def write_elem_def)

lemma add_loop_float:
  assumes ld: "\<And>a. load K a = Number (w a)" and st: "\<And>x. store K (Number x) = Inr (rnd x)"
    and len: "length s0 = n" and v: "\<And>j. j < n \<Longrightarrow> \<not> is_bigint (v j)"
  shows "count_loop 0 n (\<lambda>j s. add_into N K s j (v j)) s0 =
           Inr (map (\<lambda>j. rnd (nadd N (w (s0 ! j)) (to_number N (v j)))) [0..<n])"
proof -
  let ?g = "\<lambda>j. rnd (nadd N (w (s0 ! j)) (to_number N (v j)))"
  let ?I = "\<lambda>k s. length s = n \<and> (\<forall>j<k. s ! j = ?g j) \<and>
              (\<forall>j. k \<le> j \<longrightarrow> j < n \<longrightarrow> s ! j = s0 ! j)"
  let ?f = "\<lambda>k s. s[k := rnd (nadd N (w (s ! k)) (to_number N (v k)))]"
  have "count_loop 0 n (\<lambda>j s. add_into N K s j (v j)) s0 = Inr (fold ?f [0..<n] s0) \<and>
        ?I n (fold ?f [0..<n] s0)"
  proof (rule count_loop_fold [where I = ?I and f = ?f])
    fix k s assume "0 \<le> k" and k: "k < n" and inv: "?I k s"
    have "add_into N K s k (v k) = Inr (?f k s)"
      using add_into_float [of K w rnd k s "v k" N, OF ld st] v [OF k] k inv by simp
    moreover have "?I (Suc k) (?f k s)"
      using inv k by (auto simp: nth_list_update less_Suc_eq)
    ultimately show "add_into N K s k (v k) = Inr (?f k s) \<and> ?I (Suc k) (?f k s)" by simp
  qed (simp_all add: len)
  moreover have "xs = map ?g [0..<n]" if "length xs = n" "\<forall>j<n. xs ! j = ?g j" for xs
    using that by (intro nth_equalityI) simp_all
  ultimately show ?thesis by simp
qed

lemma float_sum_snoc:
  "float_sum N w rnd z (map f [0..<Suc k]) =
     rnd (nadd N (w (float_sum N w rnd z (map f [0..<k]))) (f k))"
  by (simp add: float_sum_def)

lemma rowSum_float:
  assumes ld: "\<And>a. load K a = Number (w a)" and st: "\<And>x. store K (Number x) = Inr (rnd x)"
  shows "rowSum N K m =
           Inr (map (\<lambda>j. float_sum N w rnd (fill K) (map (\<lambda>i. cell N K m i j) [0..<nRows m]))
                  [0..<nCols m])"
proof -
  let ?nr = "nRows m" and ?nc = "nCols m" and ?d = "data m"
  let ?part = "\<lambda>k. map (\<lambda>j. float_sum N w rnd (fill K) (map (\<lambda>i. cell N K m i j) [0..<k])) [0..<?nc]"
  let ?I = "\<lambda>k st. st = (?part k, k * ?nc)"
  let ?f = "\<lambda>k (st :: 'a list \<times> nat). (?part (Suc k), Suc k * ?nc)"
  let ?body = "\<lambda>i (sumv, offset).
                case count_loop 0 ?nc
                       (\<lambda>j sumv. add_into N K sumv j (read_elem K ?d (offset + j))) sumv of
                  Inl e \<Rightarrow> Inl e
                | Inr sumv' \<Rightarrow> Inr (sumv', offset + ?nc)"
  have "count_loop 0 ?nr ?body (new_array K ?nc, 0) =
          Inr (fold ?f [0..<?nr] (new_array K ?nc, 0)) \<and>
        ?I ?nr (fold ?f [0..<?nr] (new_array K ?nc, 0))"
  proof (rule count_loop_fold [where I = ?I and f = ?f])
    fix k and st :: "'a list \<times> nat" assume "0 \<le> k" and k: "k < ?nr" and inv: "?I k st"
    have "count_loop 0 ?nc (\<lambda>j sumv. add_into N K sumv j (read_elem K ?d (k * ?nc + j))) (?part k)
          = Inr (map (\<lambda>j. rnd (nadd N (w (?part k ! j)) (to_number N (read_elem K ?d (k * ?nc + j))))) [0..<?nc])"
      by (rule add_loop_float [of K w rnd, OF ld st]) (simp_all add: read_elem_float [of K w, OF ld])
    moreover have "map (\<lambda>j. rnd (nadd N (w (?part k ! j)) (to_number N (read_elem K ?d (k * ?nc + j))))) [0..<?nc]
                   = ?part (Suc k)"
      by (simp add: float_sum_snoc cell_def item_def del: upt_Suc)
    ultimately show "?body k st = Inr (?f k st) \<and> ?I (Suc k) (?f k st)"
      using inv by simp
  next
    show "?I 0 (new_array K ?nc, 0)"
      by (simp add: new_array_def float_sum_def map_replicate_const)
  qed simp
  then show ?thesis by (simp add: rowSum_def)
qed

lemma colSum_float:
  assumes ld: "\<And>a. load K a = Number (w a)" and st: "\<And>x. store K (Number x) = Inr (rnd x)"
  shows "colSum N K m =
           Inr (map (\<lambda>i. float_sum N w rnd (fill K) (map (\<lambda>j. cell N K m i j) [0..<nCols m]))
                  [0..<nRows m])"
proof -
  let ?nr = "nRows m" and ?nc = "nCols m" and ?d = "data m"
  let ?part = "\<lambda>k. map (\<lambda>i. float_sum N w rnd (fill K) (map (\<lambda>j. cell N K m i j) [0..<k])) [0..<?nr]"
  let ?I = "\<lambda>k s. s = ?part k"
  let ?f = "\<lambda>k (s :: 'a list). ?part (Suc k)"
  let ?body = "\<lambda>i sumv. count_loop 0 ?nr (\<lambda>j sumv. add_into N K sumv j (item K m j i)) sumv"
  have "count_loop 0 ?nc ?body (new_array K ?nr) = Inr (fold ?f [0..<?nc] (new_array K ?nr)) \<and>
        ?I ?nc (fold ?f [0..<?nc] (new_array K ?nr))"
  proof (rule count_loop_fold [where I = ?I and f = ?f])
    fix k and s :: "'a list" assume "0 \<le> k" and k: "k < ?nc" and inv: "?I k s"
    have "count_loop 0 ?nr (\<lambda>j sumv. add_into N K sumv j (item K m j k)) (?part k)
          = Inr (map (\<lambda>j. rnd (nadd N (w (?part k ! j)) (to_number N (item K m j k)))) [0..<?nr])"
      by (rule add_loop_float [of K w rnd, OF ld st])
         (simp_all add: item_def read_elem_float [of K w, OF ld])
    moreover have "map (\<lambda>j. rnd (nadd N (w (?part k ! j)) (to_number N (item K m j k)))) [0..<?nr]
                   = ?part (Suc k)"
      by (simp add: float_sum_snoc cell_def del: upt_Suc)
    ultimately show "?body k s = Inr (?f k s) \<and> ?I (Suc k) (?f k s)"
      using inv by simp
  next
    show "?I 0 (new_array K ?nr)"
      by (simp add: new_array_def float_sum_def map_replicate_const)
  qed simp
  then show ?thesis by (simp add: colSum_def)
qed

lemma f64_kind_float:
  "load (f64_kind N) a = Number a" "store (f64_kind N) (Number x) = Inr x"
  by (simp_all add: f64_kind_def)

lemma f32_kind_float:
  "load (f32_kind N widen fround) a = Number (widen a)"
  "store (f32_kind N widen fround) (Number x) = Inr (fround x)"
  by (simp_all add: f32_kind_def)

lemma reductions_int:
  fixes m :: "'w::len word Matrix"
  assumes "LENGTH('w) = bits d" and "well_shaped m"
  shows "\<exists>rs cs. rowSum ideal (int_kind d) m = Inr rs \<and> colSum ideal (int_kind d) m = Inr cs \<and>
           length rs = nCols m \<and> length cs = nRows m \<and>
           sum_list rs = sum_list (data m) \<and> sum_list cs = sum_list (data m) \<and>
           sum_list (map uint rs) mod 2 ^ bits d = sum_list (map uint (data m)) mod 2 ^ bits d \<and>
           sum_list (map uint cs) mod 2 ^ bits d = sum_list (map uint (data m)) mod 2 ^ bits d"
proof -
  let ?rs = "map (\<lambda>j. \<Sum>i<nRows m. data m ! (i * nCols m + j)) [0..<nCols m]"
  let ?cs = "map (\<lambda>j. \<Sum>i<nCols m. data m ! (j * nCols m + i)) [0..<nRows m]"
  have ld: "length (data m) = nRows m * nCols m" using assms(2) by (simp add: well_shaped_def)
  have r: "rowSum ideal (int_kind d) m = Inr ?rs"
    by (rule rowSum_native [OF native_add_int_kind assms(2)])
  have c: "colSum ideal (int_kind d) m = Inr ?cs"
    by (rule colSum_native [OF native_add_int_kind assms(2)])
  have sr: "sum_list ?rs = sum_list (data m)" and sc: "sum_list ?cs = sum_list (data m)"
    using sums_agree [OF ld] by simp_all
  have ur: "sum_list (map uint ?rs) mod 2 ^ bits d = sum_list (map uint (data m)) mod 2 ^ bits d"
    using arg_cong [OF sr, of uint] by (simp only: uint_sum_list assms(1))
  have uc: "sum_list (map uint ?cs) mod 2 ^ bits d = sum_list (map uint (data m)) mod 2 ^ bits d"
    using arg_cong [OF sc, of uint] by (simp only: uint_sum_list assms(1))
  show ?thesis
  proof (intro exI conjI)
    show "rowSum ideal (int_kind d) m = Inr ?rs" by (rule r)
    show "colSum ideal (int_kind d) m = Inr ?cs" by (rule c)
    show "length ?rs = nCols m" by simp
    show "length ?cs = nRows m" by simp
    show "sum_list ?rs = sum_list (data m)" by (rule sr)
    show "sum_list ?cs = sum_list (data m)" by (rule sc)
    show "sum_list (map uint ?rs) mod 2 ^ bits d = sum_list (map uint (data m)) mod 2 ^ bits d"
      by (rule ur)
    show "sum_list (map uint ?cs) mod 2 ^ bits d = sum_list (map uint (data m)) mod 2 ^ bits d"
      by (rule uc)
  qed
qed

lemma float_sum_append:
  "float_sum N w rnd z (xs @ [x]) = rnd (nadd N (w (float_sum N w rnd z xs)) x)"
  by (simp add: float_sum_def)

lemma float_sum_error:
  assumes r: "rounding u N w rnd z"
  shows "\<bar>w (float_sum N w rnd z xs) - sum_list xs\<bar>
           \<le> ((1 + u) ^ length xs - 1) * sum_list (map abs xs)"
proof (induction xs rule: rev_induct)
  case Nil
  from r show ?case by (simp add: float_sum_def rounding_def)
next
  case (snoc x xs)
  let ?s = "w (float_sum N w rnd z xs)" and ?S = "sum_list xs" and ?A = "sum_list (map abs xs)"
  let ?k = "length xs"
  from r have u: "0 \<le> u"
    and st: "\<bar>w (rnd (nadd N ?s x)) - (?s + x)\<bar> \<le> u * \<bar>?s + x\<bar>"
    by (simp_all add: rounding_def)
  have A0: "0 \<le> ?A" by (rule sum_list_nonneg) auto
  have SA: "\<bar>?S\<bar> \<le> ?A" by (rule sum_list_abs)
  have p1: "1 \<le> (1 + u) ^ ?k" using u by (intro one_le_power) simp
  have ih: "\<bar>?s - ?S\<bar> \<le> ((1 + u) ^ ?k - 1) * ?A" by (rule snoc.IH)
  have e1: "\<bar>?s + x\<bar> \<le> \<bar>?s - ?S\<bar> + (?A + \<bar>x\<bar>)" using SA by linarith
  have "\<bar>w (rnd (nadd N ?s x)) - (?S + x)\<bar> \<le> \<bar>w (rnd (nadd N ?s x)) - (?s + x)\<bar> + \<bar>?s - ?S\<bar>"
    by linarith
  also have "\<dots> \<le> u * \<bar>?s + x\<bar> + \<bar>?s - ?S\<bar>" using st by simp
  also have "\<dots> \<le> u * (\<bar>?s - ?S\<bar> + (?A + \<bar>x\<bar>)) + \<bar>?s - ?S\<bar>"
    using mult_left_mono [OF e1 u] by simp
  also have "\<dots> = (1 + u) * \<bar>?s - ?S\<bar> + u * (?A + \<bar>x\<bar>)" by (simp add: algebra_simps)
  also have "\<dots> \<le> (1 + u) * (((1 + u) ^ ?k - 1) * ?A) + u * (?A + \<bar>x\<bar>)"
    using mult_left_mono [OF ih, of "1 + u"] u by simp
  also have "\<dots> \<le> (1 + u) * (((1 + u) ^ ?k - 1) * (?A + \<bar>x\<bar>)) + u * (?A + \<bar>x\<bar>)"
  proof -
    have "((1 + u) ^ ?k - 1) * ?A \<le> ((1 + u) ^ ?k - 1) * (?A + \<bar>x\<bar>)"
      using p1 by (intro mult_left_mono) simp_all
    then have "(1 + u) * (((1 + u) ^ ?k - 1) * ?A) \<le> (1 + u) * (((1 + u) ^ ?k - 1) * (?A + \<bar>x\<bar>))"
      using u by (intro mult_left_mono) simp_all
    then show ?thesis by simp
  qed
  also have "\<dots> = ((1 + u) ^ Suc ?k - 1) * (?A + \<bar>x\<bar>)" by (simp add: algebra_simps)
  finally show ?case by (simp add: float_sum_append add.commute)
qed


lemma cell_well_shaped:
  assumes "\<And>a. load K a = Number (w a)" and "well_shaped m" and "i < nRows m" and "j < nCols m"
  shows "cell N K m i j = w (data m ! (i * nCols m + j))"
  using assms cell_in_buffer [OF assms(3,4)]
  by (simp add: cell_def item_def read_elem_def well_shaped_def)

lemma sum_error:
  fixes a b c :: "nat \<Rightarrow> real"
  assumes "\<And>j. j < n \<Longrightarrow> \<bar>a j - b j\<bar> \<le> e * c j"
  shows "\<bar>(\<Sum>j<n. a j) - (\<Sum>j<n. b j)\<bar> \<le> e * (\<Sum>j<n. c j)"
proof -
  have "\<bar>(\<Sum>j<n. a j) - (\<Sum>j<n. b j)\<bar> = \<bar>\<Sum>j<n. a j - b j\<bar>" by (simp add: sum_subtractf)
  also have "\<dots> \<le> (\<Sum>j<n. \<bar>a j - b j\<bar>)" by (rule sum_abs)
  also have "\<dots> \<le> (\<Sum>j<n. e * c j)" using assms by (intro sum_mono) simp
  finally show ?thesis by (simp add: sum_distrib_left)
qed

lemma rowSum_error:
  fixes N :: "real number_ops" and m :: "'a Matrix"
  assumes ld: "\<And>a. load K a = Number (w a)" and st: "\<And>x. store K (Number x) = Inr (rnd x)"
    and rd: "rounding u N w rnd (fill K)" and ws: "well_shaped m"
  shows "\<exists>rs. rowSum N K m = Inr rs \<and>
           \<bar>sum_list (map w rs) - sum_list (map w (data m))\<bar>
             \<le> ((1 + u) ^ nRows m - 1) * sum_list (map (\<lambda>a. \<bar>w a\<bar>) (data m))"
proof -
  let ?nr = "nRows m" and ?nc = "nCols m"
  let ?D = "map w (data m)" and ?A = "map (\<lambda>a. \<bar>w a\<bar>) (data m)"
  let ?xs = "\<lambda>j. map (\<lambda>i. cell N K m i j) [0..<?nr]"
  let ?rs = "map (\<lambda>j. float_sum N w rnd (fill K) (?xs j)) [0..<?nc]"
  have ld': "length ?D = ?nr * ?nc" and la: "length ?A = ?nr * ?nc"
    using ws by (simp_all add: well_shaped_def)
  have r: "rowSum N K m = Inr ?rs" by (rule rowSum_float [of K w rnd, OF ld st])
  have xs: "?xs j = map (\<lambda>i. ?D ! (i * ?nc + j)) [0..<?nr]" if "j < ?nc" for j
  proof (rule map_cong [OF refl])
    fix i assume "i \<in> set [0..<?nr]"
    then have i: "i < ?nr" by simp
    from cell_in_buffer [OF i that] ws have "i * ?nc + j < length (data m)"
      by (simp add: well_shaped_def)
    then show "cell N K m i j = ?D ! (i * ?nc + j)"
      using cell_well_shaped [of K w m i j N, OF ld ws i that] by simp
  qed
  have e: "\<bar>w (float_sum N w rnd (fill K) (?xs j)) - (\<Sum>i<?nr. ?D ! (i * ?nc + j))\<bar>
             \<le> ((1 + u) ^ ?nr - 1) * (\<Sum>i<?nr. ?A ! (i * ?nc + j))" if "j < ?nc" for j
  proof -
    have ab: "?A ! (i * ?nc + j) = \<bar>?D ! (i * ?nc + j)\<bar>" if "i < ?nr" for i
      using cell_in_buffer [OF that \<open>j < ?nc\<close>] ld' by simp
    have "sum_list (map abs (?xs j)) = (\<Sum>i<?nr. \<bar>?D ! (i * ?nc + j)\<bar>)"
      unfolding xs [OF that] by (simp add: sum_list_upt comp_def)
    also have "\<dots> = (\<Sum>i<?nr. ?A ! (i * ?nc + j))"
      by (rule sum.cong) (simp_all add: ab)
    finally have 1: "sum_list (map abs (?xs j)) = (\<Sum>i<?nr. ?A ! (i * ?nc + j))" .
    have 2: "sum_list (?xs j) = (\<Sum>i<?nr. ?D ! (i * ?nc + j))"
      unfolding xs [OF that] by (simp add: sum_list_upt)
    have 3: "length (?xs j) = ?nr" by simp
    from float_sum_error [OF rd, of "?xs j"] show ?thesis
      by (simp only: 1 2 3)
  qed
  have s1: "sum_list (map w ?rs) = (\<Sum>j<?nc. w (float_sum N w rnd (fill K) (?xs j)))"
    by (simp add: sum_list_upt comp_def)
  have s2: "sum_list ?D = (\<Sum>j<?nc. \<Sum>i<?nr. ?D ! (i * ?nc + j))"
    using sums_agree(1) [OF ld'] by (simp only: sum_list_upt)
  have s3: "sum_list ?A = (\<Sum>j<?nc. \<Sum>i<?nr. ?A ! (i * ?nc + j))"
    using sums_agree(1) [OF la] by (simp only: sum_list_upt)
  have "\<bar>sum_list (map w ?rs) - sum_list ?D\<bar> \<le> ((1 + u) ^ ?nr - 1) * sum_list ?A"
    unfolding s1 s2 s3 by (rule sum_error) (rule e)
  with r show ?thesis by blast
qed

lemma colSum_error:
  fixes N :: "real number_ops" and m :: "'a Matrix"
  assumes ld: "\<And>a. load K a = Number (w a)" and st: "\<And>x. store K (Number x) = Inr (rnd x)"
    and rd: "rounding u N w rnd (fill K)" and ws: "well_shaped m"
  shows "\<exists>cs. colSum N K m = Inr cs \<and>
           \<bar>sum_list (map w cs) - sum_list (map w (data m))\<bar>
             \<le> ((1 + u) ^ nCols m - 1) * sum_list (map (\<lambda>a. \<bar>w a\<bar>) (data m))"
proof -
  let ?nr = "nRows m" and ?nc = "nCols m"
  let ?D = "map w (data m)" and ?A = "map (\<lambda>a. \<bar>w a\<bar>) (data m)"
  let ?xs = "\<lambda>i. map (\<lambda>j. cell N K m i j) [0..<?nc]"
  let ?cs = "map (\<lambda>i. float_sum N w rnd (fill K) (?xs i)) [0..<?nr]"
  have ld': "length ?D = ?nr * ?nc" and la: "length ?A = ?nr * ?nc"
    using ws by (simp_all add: well_shaped_def)
  have r: "colSum N K m = Inr ?cs" by (rule colSum_float [of K w rnd, OF ld st])
  have xs: "?xs i = map (\<lambda>j. ?D ! (i * ?nc + j)) [0..<?nc]" if "i < ?nr" for i
  proof (rule map_cong [OF refl])
    fix j assume "j \<in> set [0..<?nc]"
    then have j: "j < ?nc" by simp
    from cell_in_buffer [OF that j] ws have "i * ?nc + j < length (data m)"
      by (simp add: well_shaped_def)
    then show "cell N K m i j = ?D ! (i * ?nc + j)"
      using cell_well_shaped [of K w m i j N, OF ld ws that j] by simp
  qed
  have e: "\<bar>w (float_sum N w rnd (fill K) (?xs i)) - (\<Sum>j<?nc. ?D ! (i * ?nc + j))\<bar>
             \<le> ((1 + u) ^ ?nc - 1) * (\<Sum>j<?nc. ?A ! (i * ?nc + j))" if "i < ?nr" for i
  proof -
    have ab: "?A ! (i * ?nc + j) = \<bar>?D ! (i * ?nc + j)\<bar>" if "j < ?nc" for j
      using cell_in_buffer [OF \<open>i < ?nr\<close> that] ld' by simp
    have "sum_list (map abs (?xs i)) = (\<Sum>j<?nc. \<bar>?D ! (i * ?nc + j)\<bar>)"
      unfolding xs [OF that] by (simp add: sum_list_upt comp_def)
    also have "\<dots> = (\<Sum>j<?nc. ?A ! (i * ?nc + j))"
      by (rule sum.cong) (simp_all add: ab)
    finally have 1: "sum_list (map abs (?xs i)) = (\<Sum>j<?nc. ?A ! (i * ?nc + j))" .
    have 2: "sum_list (?xs i) = (\<Sum>j<?nc. ?D ! (i * ?nc + j))"
      unfolding xs [OF that] by (simp add: sum_list_upt)
    have 3: "length (?xs i) = ?nc" by simp
    from float_sum_error [OF rd, of "?xs i"] show ?thesis
      by (simp only: 1 2 3)
  qed
  have s1: "sum_list (map w ?cs) = (\<Sum>i<?nr. w (float_sum N w rnd (fill K) (?xs i)))"
    by (simp add: sum_list_upt comp_def)
  have s2: "sum_list ?D = (\<Sum>i<?nr. \<Sum>j<?nc. ?D ! (i * ?nc + j))"
    using sums_agree(2) [OF ld'] by (simp only: sum_list_upt)
  have s3: "sum_list ?A = (\<Sum>i<?nr. \<Sum>j<?nc. ?A ! (i * ?nc + j))"
    using sums_agree(2) [OF la] by (simp only: sum_list_upt)
  have "\<bar>sum_list (map w ?cs) - sum_list ?D\<bar> \<le> ((1 + u) ^ ?nc - 1) * sum_list ?A"
    unfolding s1 s2 s3 by (rule sum_error) (rule e)
  with r show ?thesis by blast
qed

text \<open>
  C5, as amended. For every matrix of every element kind, a vector that \<^verbatim>\<open>rowSum\<close>
  returns has the length \<open>nCols\<close> and a vector that \<^verbatim>\<open>colSum\<close> returns has the length
  \<open>nRows\<close>, and on a matrix without rows or without columns both return the vector
  of that length filled with the zero that a fresh array of the kind holds.

  For each of the eight integer kinds and every matrix whose buffer holds its
  \<open>nRows * nCols\<close> cells, both return, and their entries are stored with the wrap-around
  of the kind: the sum of the entries of either and the sum of all elements of the matrix
  agree when each is taken with the kind's own wrapping addition, that is, they are
  equal modulo \<open>2 ^ w\<close> for the width \<open>w\<close> of the kind, and not in general as integers.

  For the two floating kinds and every matrix, both return; entry \<open>j\<close> of \<^verbatim>\<open>rowSum\<close>
  is what is left after the numbers of column \<open>j\<close> have been added to 0 from the first
  row to the last, and entry \<open>i\<close> of \<^verbatim>\<open>colSum\<close> what is left after the numbers of
  row \<open>i\<close> have been added to 0 from the first column to the last, each partial sum
  rounded as the array stores it (to single precision for \<^verbatim>\<open>Float32Array\<close>). If every
  such step has a relative error of at most \<open>u\<close> and the buffer holds the
  \<open>nRows * nCols\<close> cells, the sum of the entries of \<^verbatim>\<open>rowSum\<close> differs from the sum
  of all elements by at most \<open>((1 + u) ^ nRows - 1)\<close> times the sum of their absolute
  values, and the sum of the entries of \<^verbatim>\<open>colSum\<close> by at most
  \<open>((1 + u) ^ nCols - 1)\<close> times that sum; the sums are the exact sums of the real
  numbers that the doubles denote.
\<close>

theorem reductions_agree:
  fixes m :: "'a Matrix" and K :: "('a, 'n) kind" and N :: "'n number_ops"
    and mi :: "'w::len word Matrix"
    and md :: "'f Matrix" and ms :: "'s Matrix" and F :: "'f number_ops"
    and widen :: "'s \<Rightarrow> 'f" and fround :: "'f \<Rightarrow> 's"
    and R :: "real number_ops" and mr :: "real Matrix"
    and mq :: "'q Matrix" and wq :: "'q \<Rightarrow> real" and fq :: "real \<Rightarrow> 'q"
  shows "(\<forall>rs. rowSum N K m = Inr rs \<longrightarrow> length rs = nCols m) \<and>
         (\<forall>cs. colSum N K m = Inr cs \<longrightarrow> length cs = nRows m) \<and>
         (nRows m = 0 \<or> nCols m = 0 \<longrightarrow>
            rowSum N K m = Inr (replicate (nCols m) (fill K)) \<and>
            colSum N K m = Inr (replicate (nRows m) (fill K))) \<and>
         fill (int_kind d :: ('w word, real option) kind) = 0 \<and>
         fill (f64_kind F) = lit F 0 \<and> fill (f32_kind F widen fround) = fround (lit F 0) \<and>
         (is_integer d \<and> LENGTH('w) = bits d \<and> well_shaped mi \<longrightarrow>
          (\<exists>rs cs. rowSum ideal (int_kind d) mi = Inr rs \<and> colSum ideal (int_kind d) mi = Inr cs \<and>
            length rs = nCols mi \<and> length cs = nRows mi \<and>
            sum_list rs = sum_list (data mi) \<and> sum_list cs = sum_list (data mi) \<and>
            sum_list (map uint rs) mod 2 ^ bits d = sum_list (map uint (data mi)) mod 2 ^ bits d \<and>
            sum_list (map uint cs) mod 2 ^ bits d = sum_list (map uint (data mi)) mod 2 ^ bits d)) \<and>
         rowSum F (f64_kind F) md =
           Inr (map (\<lambda>j. float_sum F (\<lambda>x. x) (\<lambda>x. x) (lit F 0)
                            (map (\<lambda>i. cell F (f64_kind F) md i j) [0..<nRows md]))
                  [0..<nCols md]) \<and>
         colSum F (f64_kind F) md =
           Inr (map (\<lambda>i. float_sum F (\<lambda>x. x) (\<lambda>x. x) (lit F 0)
                            (map (\<lambda>j. cell F (f64_kind F) md i j) [0..<nCols md]))
                  [0..<nRows md]) \<and>
         rowSum F (f32_kind F widen fround) ms =
           Inr (map (\<lambda>j. float_sum F widen fround (fround (lit F 0))
                            (map (\<lambda>i. cell F (f32_kind F widen fround) ms i j) [0..<nRows ms]))
                  [0..<nCols ms]) \<and>
         colSum F (f32_kind F widen fround) ms =
           Inr (map (\<lambda>i. float_sum F widen fround (fround (lit F 0))
                            (map (\<lambda>j. cell F (f32_kind F widen fround) ms i j) [0..<nCols ms]))
                  [0..<nRows ms]) \<and>
         (rounding u R (\<lambda>x. x) (\<lambda>x. x) (lit R 0) \<and> well_shaped mr \<longrightarrow>
          (\<exists>rs cs. rowSum R (f64_kind R) mr = Inr rs \<and> colSum R (f64_kind R) mr = Inr cs \<and>
             \<bar>sum_list rs - sum_list (data mr)\<bar>
               \<le> ((1 + u) ^ nRows mr - 1) * sum_list (map abs (data mr)) \<and>
             \<bar>sum_list cs - sum_list (data mr)\<bar>
               \<le> ((1 + u) ^ nCols mr - 1) * sum_list (map abs (data mr)))) \<and>
         (rounding u R wq fq (fq (lit R 0)) \<and> well_shaped mq \<longrightarrow>
          (\<exists>rs cs. rowSum R (f32_kind R wq fq) mq = Inr rs \<and>
             colSum R (f32_kind R wq fq) mq = Inr cs \<and>
             \<bar>sum_list (map wq rs) - sum_list (map wq (data mq))\<bar>
               \<le> ((1 + u) ^ nRows mq - 1) * sum_list (map (\<lambda>a. \<bar>wq a\<bar>) (data mq)) \<and>
             \<bar>sum_list (map wq cs) - sum_list (map wq (data mq))\<bar>
               \<le> ((1 + u) ^ nCols mq - 1) * sum_list (map (\<lambda>a. \<bar>wq a\<bar>) (data mq))))"
proof (intro conjI allI impI)
  show "length rs = nCols m" if "rowSum N K m = Inr rs" for rs
    using that by (rule rowSum_length)
  show "length cs = nRows m" if "colSum N K m = Inr cs" for cs
    using that by (rule colSum_length)
  show "rowSum N K m = Inr (replicate (nCols m) (fill K))" if "nRows m = 0 \<or> nCols m = 0"
    using that by (rule rowSum_empty)
  show "colSum N K m = Inr (replicate (nRows m) (fill K))" if "nRows m = 0 \<or> nCols m = 0"
    using that by (rule colSum_empty)
  show "fill (int_kind d :: ('w word, real option) kind) = 0" by (simp add: int_kind_def)
  show f64: "fill (f64_kind F) = lit F 0" by (simp add: f64_kind_def)
  show f32: "fill (f32_kind F widen fround) = fround (lit F 0)" by (simp add: f32_kind_def)
  show "\<exists>rs cs. rowSum ideal (int_kind d) mi = Inr rs \<and> colSum ideal (int_kind d) mi = Inr cs \<and>
            length rs = nCols mi \<and> length cs = nRows mi \<and>
            sum_list rs = sum_list (data mi) \<and> sum_list cs = sum_list (data mi) \<and>
            sum_list (map uint rs) mod 2 ^ bits d = sum_list (map uint (data mi)) mod 2 ^ bits d \<and>
            sum_list (map uint cs) mod 2 ^ bits d = sum_list (map uint (data mi)) mod 2 ^ bits d"
    if "is_integer d \<and> LENGTH('w) = bits d \<and> well_shaped mi"
    by (rule reductions_int) (simp_all add: that)
  show "rowSum F (f64_kind F) md =
           Inr (map (\<lambda>j. float_sum F (\<lambda>x. x) (\<lambda>x. x) (lit F 0)
                            (map (\<lambda>i. cell F (f64_kind F) md i j) [0..<nRows md]))
                  [0..<nCols md])"
    using rowSum_float [of "f64_kind F" "\<lambda>x. x" "\<lambda>x. x" F md, OF f64_kind_float]
    by (simp only: f64)
  show "colSum F (f64_kind F) md =
           Inr (map (\<lambda>i. float_sum F (\<lambda>x. x) (\<lambda>x. x) (lit F 0)
                            (map (\<lambda>j. cell F (f64_kind F) md i j) [0..<nCols md]))
                  [0..<nRows md])"
    using colSum_float [of "f64_kind F" "\<lambda>x. x" "\<lambda>x. x" F md, OF f64_kind_float]
    by (simp only: f64)
  show "rowSum F (f32_kind F widen fround) ms =
           Inr (map (\<lambda>j. float_sum F widen fround (fround (lit F 0))
                            (map (\<lambda>i. cell F (f32_kind F widen fround) ms i j) [0..<nRows ms]))
                  [0..<nCols ms])"
    using rowSum_float [of "f32_kind F widen fround" widen fround F ms, OF f32_kind_float]
    by (simp only: f32)
  show "colSum F (f32_kind F widen fround) ms =
           Inr (map (\<lambda>i. float_sum F widen fround (fround (lit F 0))
                            (map (\<lambda>j. cell F (f32_kind F widen fround) ms i j) [0..<nCols ms]))
                  [0..<nRows ms])"
    using colSum_float [of "f32_kind F widen fround" widen fround F ms, OF f32_kind_float]
    by (simp only: f32)
  show "\<exists>rs cs. rowSum R (f64_kind R) mr = Inr rs \<and> colSum R (f64_kind R) mr = Inr cs \<and>
             \<bar>sum_list rs - sum_list (data mr)\<bar>
               \<le> ((1 + u) ^ nRows mr - 1) * sum_list (map abs (data mr)) \<and>
             \<bar>sum_list cs - sum_list (data mr)\<bar>
               \<le> ((1 + u) ^ nCols mr - 1) * sum_list (map abs (data mr))"
    if h: "rounding u R (\<lambda>x. x) (\<lambda>x. x) (lit R 0) \<and> well_shaped mr"
  proof -
    from h have rd: "rounding u R (\<lambda>x. x) (\<lambda>x. x) (fill (f64_kind R))" and ws: "well_shaped mr"
      by (simp_all add: f64_kind_def)
    from rowSum_error [of "f64_kind R" "\<lambda>x. x" "\<lambda>x. x" u R mr, OF f64_kind_float rd ws]
         colSum_error [of "f64_kind R" "\<lambda>x. x" "\<lambda>x. x" u R mr, OF f64_kind_float rd ws]
    show ?thesis by auto
  qed
  show "\<exists>rs cs. rowSum R (f32_kind R wq fq) mq = Inr rs \<and>
             colSum R (f32_kind R wq fq) mq = Inr cs \<and>
             \<bar>sum_list (map wq rs) - sum_list (map wq (data mq))\<bar>
               \<le> ((1 + u) ^ nRows mq - 1) * sum_list (map (\<lambda>a. \<bar>wq a\<bar>) (data mq)) \<and>
             \<bar>sum_list (map wq cs) - sum_list (map wq (data mq))\<bar>
               \<le> ((1 + u) ^ nCols mq - 1) * sum_list (map (\<lambda>a. \<bar>wq a\<bar>) (data mq))"
    if h: "rounding u R wq fq (fq (lit R 0)) \<and> well_shaped mq"
  proof -
    from h have rd: "rounding u R wq fq (fill (f32_kind R wq fq))" and ws: "well_shaped mq"
      by (simp_all add: f32_kind_def)
    from rowSum_error [of "f32_kind R wq fq" wq fq u R mq, OF f32_kind_float rd ws]
         colSum_error [of "f32_kind R wq fq" wq fq u R mq, OF f32_kind_float rd ws]
    show ?thesis by auto
  qed
qed

theorem reductions_agree_witness:
  "(\<exists>rs cs. rowSum ideal (int_kind U8)
              \<lparr>dType = U8, nRows = 2, nCols = 1, data = [200, 100 :: 8 word]\<rparr> = Inr rs \<and>
           colSum ideal (int_kind U8)
              \<lparr>dType = U8, nRows = 2, nCols = 1, data = [200, 100 :: 8 word]\<rparr> = Inr cs \<and>
           length rs = 1 \<and> length cs = 2 \<and> sum_list rs = 44 \<and> sum_list cs = 44 \<and>
           sum_list (map uint rs) mod 256 = 44 \<and> sum_list (map uint cs) mod 256 = 44) \<and>
   (\<exists>rs cs.
      rowSum \<lparr>nan = 0, lit = of_int, nadd = (\<lambda>a b. (a + b) * (9 / 8)), nmul = (*), ndiv = (/),
              nlog = ln\<rparr>
        (f64_kind \<lparr>nan = 0, lit = of_int, nadd = (\<lambda>a b. (a + b) * (9 / 8)), nmul = (*),
                    ndiv = (/), nlog = ln\<rparr>)
        \<lparr>dType = F64, nRows = 2, nCols = 2, data = [1, 2, 3, 4 :: real]\<rparr> = Inr rs \<and>
      colSum \<lparr>nan = 0, lit = of_int, nadd = (\<lambda>a b. (a + b) * (9 / 8)), nmul = (*), ndiv = (/),
              nlog = ln\<rparr>
        (f64_kind \<lparr>nan = 0, lit = of_int, nadd = (\<lambda>a b. (a + b) * (9 / 8)), nmul = (*),
                    ndiv = (/), nlog = ln\<rparr>)
        \<lparr>dType = F64, nRows = 2, nCols = 2, data = [1, 2, 3, 4 :: real]\<rparr> = Inr cs \<and>
      \<bar>sum_list rs - 10\<bar> \<le> 170 / 64 \<and> \<bar>sum_list cs - 10\<bar> \<le> 170 / 64)"
proof -
  let ?m = "\<lparr>dType = U8, nRows = 2, nCols = 1, data = [200, 100 :: 8 word]\<rparr>"
  let ?R = "\<lparr>nan = 0, lit = of_int, nadd = (\<lambda>a b. (a + b) * (9 / 8)), nmul = (*), ndiv = (/),
             nlog = ln\<rparr> :: real number_ops"
  let ?mr = "\<lparr>dType = F64, nRows = 2, nCols = 2, data = [1, 2, 3, 4 :: real]\<rparr>"
  have ws: "well_shaped ?m" by (simp add: well_shaped_def)
  have i: "is_integer U8" and b: "LENGTH(8) = bits U8" by simp_all
  have h: "is_integer U8 \<and> LENGTH(8) = bits U8 \<and> well_shaped ?m"
    using i b ws by (intro conjI)
  have rd: "rounding (1 / 8) ?R (\<lambda>x. x) (\<lambda>x. x) (lit ?R 0)"
  proof -
    have "\<bar>(a + x) * (9 / 8) - (a + x)\<bar> \<le> 1 / 8 * \<bar>a + x\<bar>" for a x :: real
    proof -
      have "(a + x) * (9 / 8) - (a + x) = 1 / 8 * (a + x)" by (simp add: algebra_simps)
      then have "\<bar>(a + x) * (9 / 8) - (a + x)\<bar> = \<bar>1 / 8 * (a + x)\<bar>" by (simp only:)
      also have "\<dots> = 1 / 8 * \<bar>a + x\<bar>" by (simp add: abs_mult)
      finally show ?thesis by simp
    qed
    then show ?thesis by (simp add: rounding_def)
  qed
  have hr: "rounding (1 / 8) ?R (\<lambda>x. x) (\<lambda>x. x) (lit ?R 0) \<and> well_shaped ?mr"
    using rd by (simp add: well_shaped_def)
  note t = reductions_agree [where d = U8 and mi = ?m and R = ?R and mr = ?mr and u = "1 / 8"]
  note ti = t [THEN conjunct2, THEN conjunct2, THEN conjunct2, THEN conjunct2, THEN conjunct2,
               THEN conjunct2, THEN conjunct1, THEN mp, OF h]
  note te = t [THEN conjunct2, THEN conjunct2, THEN conjunct2, THEN conjunct2, THEN conjunct2,
               THEN conjunct2, THEN conjunct2, THEN conjunct2, THEN conjunct2, THEN conjunct2,
               THEN conjunct2, THEN conjunct1, THEN mp, OF hr]
  from ti obtain rs cs where
    "rowSum ideal (int_kind U8) ?m = Inr rs" "colSum ideal (int_kind U8) ?m = Inr cs"
    "length rs = nCols ?m" "length cs = nRows ?m"
    "sum_list rs = sum_list (data ?m)" "sum_list cs = sum_list (data ?m)"
    "sum_list (map uint rs) mod 2 ^ bits U8 = sum_list (map uint (data ?m)) mod 2 ^ bits U8"
    "sum_list (map uint cs) mod 2 ^ bits U8 = sum_list (map uint (data ?m)) mod 2 ^ bits U8"
    by blast
  then have 1: "\<exists>rs cs. rowSum ideal (int_kind U8) ?m = Inr rs \<and>
           colSum ideal (int_kind U8) ?m = Inr cs \<and>
           length rs = 1 \<and> length cs = 2 \<and> sum_list rs = 44 \<and> sum_list cs = 44 \<and>
           sum_list (map uint rs) mod 256 = 44 \<and> sum_list (map uint cs) mod 256 = 44"
    by (intro exI [of _ rs] exI [of _ cs]) simp
  from te obtain rs' cs' where
    "rowSum ?R (f64_kind ?R) ?mr = Inr rs'" "colSum ?R (f64_kind ?R) ?mr = Inr cs'"
    "\<bar>sum_list rs' - sum_list (data ?mr)\<bar>
       \<le> ((1 + 1 / 8) ^ nRows ?mr - 1) * sum_list (map abs (data ?mr))"
    "\<bar>sum_list cs' - sum_list (data ?mr)\<bar>
       \<le> ((1 + 1 / 8) ^ nCols ?mr - 1) * sum_list (map abs (data ?mr))"
    by blast
  then have 2: "\<exists>rs cs. rowSum ?R (f64_kind ?R) ?mr = Inr rs \<and>
      colSum ?R (f64_kind ?R) ?mr = Inr cs \<and>
      \<bar>sum_list rs - 10\<bar> \<le> 170 / 64 \<and> \<bar>sum_list cs - 10\<bar> \<le> 170 / 64"
    by (intro exI [of _ rs'] exI [of _ cs']) (simp add: power2_eq_square)
  from 1 2 show ?thesis by (rule conjI)
qed

lemma replicate_small: "replicate 1 x = [x]" "replicate 2 x = [x, x]"
  by (simp_all add: numeral_2_eq_2)

lemma overflow_example:
  "rowSum ideal (int_kind U8) \<lparr>dType = U8, nRows = 2, nCols = 1, data = [200, 100 :: 8 word]\<rparr>
     = Inr [44]"
  "colSum ideal (int_kind U8) \<lparr>dType = U8, nRows = 2, nCols = 1, data = [200, 100 :: 8 word]\<rparr>
     = Inr [200, 100]"
  by (simp_all add: rowSum_def colSum_def count_loop.simps new_array_def add_into_def item_def
        read_elem_def write_elem_def int_kind_def word_value_def ideal_def lift2_def trunc_def
        replicate_small)

text \<open>
  C5 as stated fails: for the 2 by 1 matrix of kind \<open>U8\<close> with the elements 200 and
  100, \<^verbatim>\<open>rowSum\<close> is \<open>[44]\<close> (the total 300 wrapped to eight bits) and
  \<^verbatim>\<open>colSum\<close> is \<open>[200, 100]\<close>; the entries of the first sum to 44, those of the
  second to 300.
\<close>

theorem reductions_agree_counterexample:
  "rowSum ideal (int_kind U8) \<lparr>dType = U8, nRows = 2, nCols = 1, data = [200, 100 :: 8 word]\<rparr>
     = Inr [44] \<and>
   colSum ideal (int_kind U8) \<lparr>dType = U8, nRows = 2, nCols = 1, data = [200, 100 :: 8 word]\<rparr>
     = Inr [200, 100] \<and>
   sum_list (map uint [44 :: 8 word]) \<noteq> sum_list (map uint [200, 100 :: 8 word])"
  using overflow_example by simp

section \<open>Means\<close>

lemma divide_loop:
  "count_loop (length pre) (length pre + length rest)
     (\<lambda>i s. case js_div N (read_elem K s i) dv of Inl e \<Rightarrow> Inl e | Inr q \<Rightarrow> write_elem K s i q)
     (pre @ rest) =
   and_then (map_result (\<lambda>a. and_then (js_div N (load K a) dv) (store K)) rest)
     (\<lambda>qs. Inr (pre @ qs))"
proof (induction rest arbitrary: pre)
  case Nil
  then show ?case by (simp add: count_loop_stop and_then_def)
next
  case (Cons a rest)
  have rd: "read_elem K (pre @ a # rest) (length pre) = load K a"
    by (simp add: read_elem_def)
  have ih: "count_loop (Suc (length pre)) (Suc (length pre + length rest))
              (\<lambda>i s. case js_div N (read_elem K s i) dv of Inl e \<Rightarrow> Inl e | Inr q \<Rightarrow> write_elem K s i q)
              (pre @ a' # rest) =
            and_then (map_result (\<lambda>a. and_then (js_div N (load K a) dv) (store K)) rest)
              (\<lambda>qs. Inr (pre @ a' # qs))" for a'
    using Cons.IH [of "pre @ [a']"] by simp
  show ?case
    by (subst count_loop_step)
       (auto simp: rd ih write_elem_def and_then_def split: sum.splits)
qed

lemma divide_all_map:
  "divide_all N K dv sumv = map_result (\<lambda>a. and_then (js_div N (load K a) dv) (store K)) sumv"
  using divide_loop [where pre = "[]" and rest = sumv and N = N and K = K and dv = dv]
  by (cases "map_result (\<lambda>a. and_then (js_div N (load K a) dv) (store K)) sumv")
     (simp_all add: divide_all_def and_then_def)

lemma count_divisor_coherent:
  assumes "tag_coherent K" and "data m \<noteq> []"
  shows "count_divisor N K m n =
           (if is_wide (tag K) then BigInt (int n) else Number (lit N (int n)))"
  using assms by (simp add: count_divisor_def read_elem_def tag_coherent_def)

text \<open>
  C6. For every element kind whose elements read in the domain its tag names, and every
  non-empty matrix, \<^verbatim>\<open>rowMean\<close> is \<^verbatim>\<open>rowSum\<close> with each entry divided by the row
  count and stored back, and \<^verbatim>\<open>colMean\<close> is \<^verbatim>\<open>colSum\<close> with each entry divided by
  the column count; the divisor is the count as a bigint for the kinds \<open>U64\<close> and
  \<open>I64\<close> and the count as a number for the others, so a bigint sum is never divided by
  a number.
\<close>

theorem means_divide_by_count:
  assumes "tag_coherent K" and "data m \<noteq> []"
  shows "rowMean N K m =
           and_then (rowSum N K m)
             (map_result (\<lambda>s. and_then
                (js_div N (load K s)
                   (if is_wide (tag K) then BigInt (int (nRows m))
                    else Number (lit N (int (nRows m)))))
                (store K))) \<and>
         colMean N K m =
           and_then (colSum N K m)
             (map_result (\<lambda>s. and_then
                (js_div N (load K s)
                   (if is_wide (tag K) then BigInt (int (nCols m))
                    else Number (lit N (int (nCols m)))))
                (store K)))"
  by (simp add: rowMean_def colMean_def and_then_def divide_all_map
        count_divisor_coherent [OF assms] split: sum.splits)

lemma tag_coherent_int_kind: "tag_coherent (int_kind d)"
  by (simp add: tag_coherent_def int_kind_def)

lemma tag_int_kind: "tag (int_kind d) = d"
  by (simp add: int_kind_def)

lemma means_example:
  "rowMean ideal (int_kind I64)
     \<lparr>dType = I64, nRows = 2, nCols = 2, data = [10, 20, 30, 41 :: 64 word]\<rparr> = Inr [20, 30]"
  by (simp add: rowMean_def rowSum_def count_loop.simps new_array_def divide_all_def
        count_divisor_def add_into_def read_elem_def write_elem_def int_kind_def word_value_def
        eval_nat_numeral)

theorem means_divide_by_count_witness:
  "rowMean ideal (int_kind I64)
     \<lparr>dType = I64, nRows = 2, nCols = 2, data = [10, 20, 30, 41 :: 64 word]\<rparr> =
   and_then
     (rowSum ideal (int_kind I64)
        \<lparr>dType = I64, nRows = 2, nCols = 2, data = [10, 20, 30, 41 :: 64 word]\<rparr>)
     (map_result (\<lambda>s. and_then (js_div ideal (load (int_kind I64) s) (BigInt 2))
                         (store (int_kind I64)))) \<and>
   rowMean ideal (int_kind I64)
     \<lparr>dType = I64, nRows = 2, nCols = 2, data = [10, 20, 30, 41 :: 64 word]\<rparr> = Inr [20, 30]"
proof -
  have ne: "data \<lparr>dType = I64, nRows = 2, nCols = 2, data = [10, 20, 30, 41 :: 64 word]\<rparr> \<noteq> []"
    by simp
  from means_divide_by_count [OF tag_coherent_int_kind [of I64] ne, where N = ideal,
         THEN conjunct1]
  show ?thesis by (simp add: tag_int_kind means_example)
qed

section \<open>Dot product\<close>

lemma count_loop_accumulate_fun: "count_loop i n body = accumulate body [i..<n]"
  by (rule ext) (rule count_loop_accumulate)

lemma accumulate_map_fun: "accumulate f (map g xs) = accumulate (\<lambda>x. f (g x)) xs"
  by (rule ext) (rule accumulate_map)

text \<open>
  What \<^verbatim>\<open>dot\<close> computes: after the two shape checks, the products of corresponding
  cells are added to the accumulator column by column, rows innermost, starting from
  the bigint 0 when the first element of the buffer reads as a bigint and from the
  number 0 otherwise.
\<close>

lemma dot_column_major:
  "dot N K m rhs =
     (if nRows rhs \<noteq> nRows m then Inl UnequalRows
      else if nCols rhs \<noteq> nCols m then Inl UnequalCols
      else accumulate
             (\<lambda>(i, j) res. and_then (js_mul N (item K m i j) (item K rhs i j)) (js_add N res))
             (concat (map (\<lambda>j. map (\<lambda>i. (i, j)) [0..<nRows m]) [0..<nCols m]))
             (if is_bigint (read_elem K (data m) 0) then BigInt 0 else Number (lit N 0)))"
  by (simp add: dot_def count_loop_accumulate_fun accumulate_concat_map accumulate_map_fun
        and_then_def)

text \<open>
  C2. The claim asks for a result in the arithmetic domain of the element kind, a bigint
  for the 64-bit integer kinds. On a matrix of kind \<open>U64\<close> without cells, built by the
  constructor's Allocate mode with the shape \<open>[0, 3]\<close>, \<^verbatim>\<open>dot\<close> returns the number 0
  and not the bigint 0: \<^verbatim>\<open>typeof this.data[0]\<close> is not \<^verbatim>\<open>"bigint"\<close> on an empty
  buffer.
\<close>

theorem dot_empty_wide:
  "new_Matrix (int_kind U64 :: (64 word, real option) kind) (StringArg U64)
     \<lparr>cfg_shape = Some (0, Some 3), cfg_dType = None\<rparr> =
     Inr (Proper \<lparr>dType = U64, nRows = 0, nCols = 3, data = []\<rparr>) \<and>
   dot ideal (int_kind U64 :: (64 word, real option) kind)
     \<lparr>dType = U64, nRows = 0, nCols = 3, data = []\<rparr>
     \<lparr>dType = U64, nRows = 0, nCols = 3, data = []\<rparr> = Inr (Number (Some 0)) \<and>
   dot ideal (int_kind U64 :: (64 word, real option) kind)
     \<lparr>dType = U64, nRows = 0, nCols = 3, data = []\<rparr>
     \<lparr>dType = U64, nRows = 0, nCols = 3, data = []\<rparr> \<noteq> Inr (BigInt 0)"
  by (simp add: new_array_def dot_def count_loop.simps read_elem_def ideal_def)

end
